theory Spec2Isabelle
  imports Complex_Main
begin

section \<open>Strings\<close>

text \<open>
  TypeScript strings are modelled as \<open>string\<close> (character lists) over ASCII: a character
  outside \<open>A\<close>..\<open>Z\<close> is left alone by \<open>toLowerCase\<close>, and the white space of the regular
  expression \<^verbatim>\<open>\s\<close> is space, tab, line feed, vertical tab, form feed and carriage return.
\<close>

definition lower_char :: "char \<Rightarrow> char" where
  "lower_char c =
     (case map_of (zip ''ABCDEFGHIJKLMNOPQRSTUVWXYZ'' ''abcdefghijklmnopqrstuvwxyz'') c of
        Some d \<Rightarrow> d
      | None \<Rightarrow> c)"

definition toLowerCase :: "string \<Rightarrow> string" where
  "toLowerCase s = map lower_char s"

definition is_space :: "char \<Rightarrow> bool" where
  "is_space c \<longleftrightarrow> c \<in> set [CHR '' '', CHR 0x09, CHR 0x0A, CHR 0x0B, CHR 0x0C, CHR 0x0D]"

text \<open>\<^verbatim>\<open>s.split(/\s+/)\<close>: the pieces between maximal runs of white space; a leading or
  trailing run leaves an empty piece, and the empty string splits into one empty piece.\<close>

function split_ws :: "string \<Rightarrow> string list" where
  "split_ws s =
     (let w = takeWhile (\<lambda>c. \<not> is_space c) s;
          rest = dropWhile (\<lambda>c. \<not> is_space c) s
      in if rest = [] then [w] else w # split_ws (dropWhile is_space rest))"
  by pat_completeness auto
termination
proof (relation "measure length")
  show "wf (measure length)" by simp
next
  fix s :: string and w rest
  assume r: "rest = dropWhile (\<lambda>c. \<not> is_space c) s" and ne: "rest \<noteq> []"
  from ne obtain c cs where rc: "rest = c # cs" by (cases rest) auto
  have "length (dropWhile is_space rest) \<le> length rest"
    by (rule length_dropWhile_le)
  moreover have "is_space (hd rest)"
    using hd_dropWhile [of "\<lambda>c. \<not> is_space c" s] r ne by auto
  then have "length (dropWhile is_space rest) < length rest"
    using rc length_dropWhile_le [of is_space cs] by simp
  moreover have "length rest \<le> length s"
    unfolding r by (rule length_dropWhile_le)
  ultimately show "(dropWhile is_space rest, s) \<in> measure length" by simp
qed

declare split_ws.simps [simp del]

text \<open>\<^verbatim>\<open>s.startsWith(w)\<close> and \<^verbatim>\<open>s.includes(w)\<close>.\<close>

definition startsWith :: "string \<Rightarrow> string \<Rightarrow> bool" where
  "startsWith s w \<longleftrightarrow> take (length w) s = w"

fun str_includes :: "string \<Rightarrow> string \<Rightarrow> bool" where
  "str_includes [] w \<longleftrightarrow> w = []"
| "str_includes (c # cs) w \<longleftrightarrow> startsWith (c # cs) w \<or> str_includes cs w"

section \<open>Search results\<close>

datatype fetch_status = success | error

record SearchResult =
  title :: string
  url :: string
  description :: string
  fullContent :: string
  contentPreview :: string
  wordCount :: nat
  timestamp :: string
  fetchStatus :: fetch_status
  error_msg :: "string option"

section \<open>Quality scoring: \<open>SearchEngine.assessResultQuality\<close>\<close>

definition queryWords :: "string \<Rightarrow> string list" where
  "queryWords query = filter (\<lambda>w. length w > 3) (split_ws (toLowerCase query))"

definition result_matches :: "string list \<Rightarrow> SearchResult \<Rightarrow> bool" where
  "result_matches ws r \<longleftrightarrow>
     list_ex (\<lambda>word. str_includes (toLowerCase (title r)) word
                   \<or> str_includes (toLowerCase (description r)) word) ws"

definition matchCount :: "SearchResult list \<Rightarrow> string \<Rightarrow> nat" where
  "matchCount results query = length (filter (result_matches (queryWords query)) results)"

text \<open>The score is a JavaScript number; it is modelled as the exact quotient, a real.\<close>

definition assessResultQuality :: "SearchResult list \<Rightarrow> string \<Rightarrow> real" where
  "assessResultQuality results query =
     (if length results = 0 then 0
      else if length (queryWords query) = 0 then 1
      else real (matchCount results query) / real (length results))"

section \<open>Result parsers\<close>

text \<open>
  The HTML parser (cheerio) is an external library. A page is modelled by what the
  parsers' selectors find in it: for each selector the matching elements in document
  order, each with the trimmed text of its title node, the \<open>href\<close> attribute of its link
  (\<open>None\<close> when the attribute is absent) and the trimmed text of its snippet node.
\<close>

record element =
  el_title :: string
  el_href :: "string option"
  el_snippet :: string

record document =
  sel_brave_web :: "element list"      \<comment> \<open>\<^verbatim>\<open>#results .snippet[data-type="web"]\<close>\<close>
  sel_brave_snippet :: "element list"  \<comment> \<open>\<^verbatim>\<open>.snippet\<close>, title and link from its first \<^verbatim>\<open>a\<close>\<close>
  sel_bing_algo :: "element list"      \<comment> \<open>\<^verbatim>\<open>.b_algo\<close>\<close>
  sel_ddg_article :: "element list"    \<comment> \<open>\<^verbatim>\<open>article\<close>\<close>
  sel_ddg_result :: "element list"     \<comment> \<open>\<^verbatim>\<open>.result\<close>\<close>

text \<open>The library functions \<^verbatim>\<open>new URL(url, base).searchParams\<close> and
  \<^verbatim>\<open>decodeURIComponent\<close>, which \<open>parseDuckDuckGoResults\<close> calls, are parameters:
  \<open>url_uddg u\<close> is \<open>None\<close> when the URL constructor throws, \<open>Some None\<close> when the URL
  has no \<^verbatim>\<open>uddg\<close> parameter and \<open>Some (Some v)\<close> when its value is \<open>v\<close>;
  \<open>decodeURIComponent\<close> is \<open>None\<close> when it throws.\<close>

record platform =
  url_uddg :: "string \<Rightarrow> string option option"
  decodeURIComponent :: "string \<Rightarrow> string option"

definition mk_result :: "string \<Rightarrow> string \<Rightarrow> string \<Rightarrow> string \<Rightarrow> SearchResult" where
  "mk_result t u d ts =
     \<lparr>title = t, url = u, description = d, fullContent = [], contentPreview = [],
      wordCount = 0, timestamp = ts, fetchStatus = success, error_msg = None\<rparr>"

text \<open>The body of a \<^verbatim>\<open>$(selector).each(...)\<close> callback: \<open>return\<close> once \<open>maxResults\<close>
  results are collected (the iteration goes on, without effect), otherwise push the
  element's result when \<^verbatim>\<open>title && url\<close> holds. \<open>conv\<close> builds the result from the title,
  the link and the snippet.\<close>

fun each_push ::
  "nat \<Rightarrow> (string \<Rightarrow> string \<Rightarrow> string \<Rightarrow> SearchResult) \<Rightarrow> element list
     \<Rightarrow> SearchResult list \<Rightarrow> SearchResult list" where
  "each_push maxResults conv [] results = results"
| "each_push maxResults conv (e # es) results =
     (if length results \<ge> maxResults then each_push maxResults conv es results
      else case el_href e of
             None \<Rightarrow> each_push maxResults conv es results
           | Some u \<Rightarrow>
               if el_title e \<noteq> [] \<and> u \<noteq> []
               then each_push maxResults conv es (results @ [conv (el_title e) u (el_snippet e)])
               else each_push maxResults conv es results)"

definition parseBraveResults :: "string \<Rightarrow> document \<Rightarrow> nat \<Rightarrow> SearchResult list" where
  "parseBraveResults ts html maxResults =
     (let results = each_push maxResults (\<lambda>t u d. mk_result t u d ts) (sel_brave_web html) []
      in if length results = 0
         then each_push maxResults (\<lambda>t u d. mk_result t u [] ts) (sel_brave_snippet html) results
         else results)"

definition parseBingResults :: "string \<Rightarrow> document \<Rightarrow> nat \<Rightarrow> SearchResult list" where
  "parseBingResults ts html maxResults =
     each_push maxResults (\<lambda>t u d. mk_result t u d ts) (sel_bing_algo html) []"

definition cleanUrl :: "platform \<Rightarrow> string \<Rightarrow> string" where
  "cleanUrl pf u =
     (case url_uddg pf u of
        None \<Rightarrow> u
      | Some None \<Rightarrow> u
      | Some (Some v) \<Rightarrow>
          (case decodeURIComponent pf (if v = [] then u else v) of
             None \<Rightarrow> u
           | Some d \<Rightarrow> d))"

definition parseDuckDuckGoResults ::
  "platform \<Rightarrow> string \<Rightarrow> document \<Rightarrow> nat \<Rightarrow> SearchResult list" where
  "parseDuckDuckGoResults pf ts html maxResults =
     each_push maxResults (\<lambda>t u d. mk_result t (cleanUrl pf u) d ts) (sel_ddg_result html) []"

definition parseDuckDuckGoBrowserResults :: "string \<Rightarrow> document \<Rightarrow> nat \<Rightarrow> SearchResult list" where
  "parseDuckDuckGoBrowserResults ts html maxResults =
     (let results = each_push maxResults (\<lambda>t u d. mk_result t u d ts) (sel_ddg_article html) []
      in if length results = 0
         then each_push maxResults (\<lambda>t u d. mk_result t u d ts) (sel_ddg_result html) results
         else results)"

section \<open>Search backends\<close>

text \<open>What a backend's page load gives: \<open>Failed\<close> when anything in the session throws
  (no browser context, navigation error or timeout, HTTP error), otherwise the page.
  A backend that throws is \<open>None\<close>.\<close>

datatype fetched = Failed | Html document

record pages =
  ddg_browser_page :: fetched
  bing_page :: fetched
  brave_page :: fetched
  ddg_axios_page :: fetched

definition tryBrowserDuckDuckGoSearch :: "string \<Rightarrow> pages \<Rightarrow> nat \<Rightarrow> SearchResult list option" where
  "tryBrowserDuckDuckGoSearch ts pg numResults =
     (case ddg_browser_page pg of
        Failed \<Rightarrow> None
      | Html html \<Rightarrow> Some (parseDuckDuckGoBrowserResults ts html numResults))"

definition tryBrowserBingSearch :: "string \<Rightarrow> pages \<Rightarrow> nat \<Rightarrow> SearchResult list option" where
  "tryBrowserBingSearch ts pg numResults =
     (case bing_page pg of
        Failed \<Rightarrow> None
      | Html html \<Rightarrow> Some (parseBingResults ts html numResults))"

definition tryBrowserBraveSearch :: "string \<Rightarrow> pages \<Rightarrow> nat \<Rightarrow> SearchResult list option" where
  "tryBrowserBraveSearch ts pg numResults =
     (case brave_page pg of
        Failed \<Rightarrow> None
      | Html html \<Rightarrow> Some (parseBraveResults ts html numResults))"

definition tryDuckDuckGoSearch ::
  "platform \<Rightarrow> string \<Rightarrow> pages \<Rightarrow> nat \<Rightarrow> SearchResult list option" where
  "tryDuckDuckGoSearch pf ts pg numResults =
     (case ddg_axios_page pg of
        Failed \<Rightarrow> None
      | Html html \<Rightarrow> Some (parseDuckDuckGoResults pf ts html numResults))"

section \<open>The fallback loop: \<open>SearchEngine.search\<close>\<close>

record config =
  enableQualityCheck :: bool   \<comment> \<open>\<^verbatim>\<open>ENABLE_RELEVANCE_CHECKING !== 'false'\<close>\<close>
  qualityThreshold :: real     \<comment> \<open>\<^verbatim>\<open>parseFloat(RELEVANCE_THRESHOLD || '0.3')\<close>\<close>
  forceMultiEngine :: bool     \<comment> \<open>\<^verbatim>\<open>FORCE_MULTI_ENGINE_SEARCH === 'true'\<close>\<close>

definition default_config :: config where
  "default_config =
     \<lparr>enableQualityCheck = True, qualityThreshold = 3 / 10, forceMultiEngine = False\<rparr>"

record best =
  bestResults :: "SearchResult list"
  bestEngine :: string
  bestQuality :: real

definition initial_best :: best where
  "initial_best = \<lparr>bestResults = [], bestEngine = ''None'', bestQuality = 0\<rparr>"

text \<open>The threshold is the number that \<open>parseFloat\<close> reads; a text that is no number
  is not modelled. Counts such as \<open>numResults\<close> are natural numbers.\<close>

text \<open>One iteration of the loop either returns from \<open>search\<close> or goes on to the next
  approach with the best set so far. \<open>is_last\<close> is \<^verbatim>\<open>i === approaches.length - 1\<close>.\<close>

datatype decision = Return "SearchResult list" string | Continue best

definition attempt ::
  "config \<Rightarrow> string \<Rightarrow> bool \<Rightarrow> string \<Rightarrow> SearchResult list option \<Rightarrow> best \<Rightarrow> decision" where
  "attempt cfg query is_last name outcome b =
     (case outcome of
        None \<Rightarrow> Continue b
      | Some results \<Rightarrow>
          if length results > 0 then
            (let qualityScore =
                   (if enableQualityCheck cfg then assessResultQuality results query else 1);
                 b' = (if qualityScore > bestQuality b
                       then \<lparr>bestResults = results, bestEngine = name, bestQuality = qualityScore\<rparr>
                       else b)
             in if qualityScore \<ge> 8 / 10 \<and> \<not> forceMultiEngine cfg then Return results name
                else if qualityScore \<ge> qualityThreshold cfg \<and> name \<noteq> ''Browser Bing''
                        \<and> \<not> forceMultiEngine cfg
                then Return results name
                else if is_last then
                  (if bestQuality b' \<ge> qualityThreshold cfg \<or> \<not> enableQualityCheck cfg
                   then Return (bestResults b') (bestEngine b')
                   else if length (bestResults b') > 0
                   then Return (bestResults b') (bestEngine b')
                   else Continue b')
                else Continue b')
          else Continue b)"

fun search_loop ::
  "config \<Rightarrow> string \<Rightarrow> (string \<times> SearchResult list option) list \<Rightarrow> best
     \<Rightarrow> SearchResult list \<times> string" where
  "search_loop cfg query [] b = ([], ''None'')"
| "search_loop cfg query ((name, outcome) # rest) b =
     (case attempt cfg query (rest = []) name outcome b of
        Return results engine \<Rightarrow> (results, engine)
      | Continue b' \<Rightarrow> search_loop cfg query rest b')"

text \<open>The approaches in the order of the source, each with what its method gives when
  it is called with the query, \<open>numResults\<close> and the per-approach timeout.\<close>

definition approaches ::
  "platform \<Rightarrow> string \<Rightarrow> pages \<Rightarrow> nat \<Rightarrow> (string \<times> SearchResult list option) list" where
  "approaches pf ts pg numResults =
     [(''Browser DuckDuckGo'', tryBrowserDuckDuckGoSearch ts pg numResults),
      (''Browser Bing'', tryBrowserBingSearch ts pg numResults),
      (''Browser Brave'', tryBrowserBraveSearch ts pg numResults),
      (''Axios DuckDuckGo'', tryDuckDuckGoSearch pf ts pg numResults)]"

text \<open>Modelled from the spec: \<open>RateLimiter.execute\<close> (\<^verbatim>\<open>rate-limiter.js\<close> is not among the
  sources); a call beyond the budget is delayed, never rejected, and then runs exactly
  once, so the wrapper gives what the wrapped operation gives.\<close>

definition rateLimiter_execute :: "'a \<Rightarrow> 'a" where
  "rateLimiter_execute body = body"

definition search ::
  "config \<Rightarrow> platform \<Rightarrow> string \<Rightarrow> pages \<Rightarrow> string \<Rightarrow> nat \<Rightarrow> SearchResult list \<times> string" where
  "search cfg pf ts pg query numResults =
     rateLimiter_execute (search_loop cfg query (approaches pf ts pg numResults) initial_best)"

section \<open>Quota limiter: \<open>BraveApiRateLimiter\<close>\<close>





























section \<open>Browser pool: \<open>BrowserPool\<close>\<close>

text \<open>
  \<open>getBrowser\<close> is an \<open>async\<close> function: between two \<open>await\<close>s it runs without
  interruption, and at an \<open>await\<close> other calls may run. The pool is modelled as a
  transition system whose steps are these uninterrupted segments.

  A launch is identified by its number \<open>p\<close> (the \<open>p\<close>-th call of \<open>launchBrowser\<close>), and the
  browser it creates by the same number. \<open>launches\<close> records the state of every launch
  started so far, \<open>closeCalls\<close> the browsers on which \<open>close()\<close> was called, and \<open>calls\<close>
  where every \<open>getBrowser\<close> call made so far stands.
\<close>

definition MAX_CONTEXTS_PER_BROWSER :: nat where
  "MAX_CONTEXTS_PER_BROWSER = 50"

datatype launch_state = Pending | Fulfilled | LaunchFailed

datatype call_state =
    Closing          \<comment> \<open>suspended at \<^verbatim>\<open>await this.safeCloseBrowser(this.browser)\<close>\<close>
  | Launching nat    \<comment> \<open>started this launch, suspended at \<^verbatim>\<open>await this.browserLaunchPromise\<close>\<close>
  | Sharing nat      \<comment> \<open>returned the launch promise it found\<close>
  | Resolved nat     \<comment> \<open>resolved with this browser\<close>
  | Rejected         \<comment> \<open>rejected with the launch error\<close>

record pool =
  browser :: "nat option"
  browserLaunchPromise :: "nat option"
  contextCount :: nat
  launches :: "launch_state list"
  isConnected :: "nat \<Rightarrow> bool"
  closeCalls :: "nat list"
  calls :: "call_state list"

definition initial_pool :: pool where
  "initial_pool =
     \<lparr>browser = None, browserLaunchPromise = None, contextCount = 0, launches = [],
      isConnected = (\<lambda>b. False), closeCalls = [], calls = []\<rparr>"

text \<open>Lines 58 to 66 of \<open>getBrowser\<close>: return the pending launch promise, or start a
  launch, store its promise and await it.\<close>

definition launch_or_share :: "pool \<Rightarrow> call_state \<times> pool" where
  "launch_or_share s =
     (case browserLaunchPromise s of
        Some p \<Rightarrow> (Sharing p, s)
      | None \<Rightarrow>
          (Launching (length (launches s)),
           s\<lparr>browserLaunchPromise := Some (length (launches s)),
             launches := launches s @ [Pending]\<rparr>))"

text \<open>A new call of \<open>getBrowser\<close>, up to its return or its first \<open>await\<close>. The call gets
  the next free number.\<close>

definition getBrowser_called :: "pool \<Rightarrow> pool" where
  "getBrowser_called s =
     (case browser s of
        Some b \<Rightarrow>
          if isConnected s b \<and> contextCount s < MAX_CONTEXTS_PER_BROWSER
          then s\<lparr>calls := calls s @ [Resolved b]\<rparr>
          else s\<lparr>closeCalls := closeCalls s @ [b], calls := calls s @ [Closing]\<rparr>
      | None \<Rightarrow>
          (let (st, s') = launch_or_share s in s'\<lparr>calls := calls s' @ [st]\<rparr>))"

text \<open>Call \<open>c\<close> resumes after \<open>safeCloseBrowser\<close>, which swallows a failure of \<open>close()\<close>:
  \<^verbatim>\<open>this.browser = null\<close>, then lines 58 to 66.\<close>

definition close_settled :: "nat \<Rightarrow> pool \<Rightarrow> pool" where
  "close_settled c s =
     (if c < length (calls s) \<and> calls s ! c = Closing
      then (let (st, s') = launch_or_share (s\<lparr>browser := None\<rparr>)
            in s'\<lparr>calls := (calls s')[c := st]\<rparr>)
      else s)"

text \<open>The launch \<open>p\<close> in flight ends: \<open>chromium.launch\<close> gives a connected browser
  or throws, and \<open>launchBrowser\<close> rethrows.\<close>

definition launch_settled :: "nat \<Rightarrow> bool \<Rightarrow> pool \<Rightarrow> pool" where
  "launch_settled p ok s =
     (if p < length (launches s) \<and> launches s ! p = Pending
      then if ok
           then s\<lparr>launches := (launches s)[p := Fulfilled],
                  isConnected := (isConnected s)(p := True)\<rparr>
           else s\<lparr>launches := (launches s)[p := LaunchFailed]\<rparr>
      else s)"

text \<open>The call that started the launch resumes after its \<open>await\<close> (lines 66 to 71):
  on success it stores the browser and resets the counter; in both cases the
  \<open>finally\<close> block clears the promise.\<close>

definition launcher_resumes :: "nat \<Rightarrow> pool \<Rightarrow> pool" where
  "launcher_resumes c s =
     (if c < length (calls s) then
        (case calls s ! c of
           Launching p \<Rightarrow>
             if p < length (launches s) then
               (case launches s ! p of
                  Pending \<Rightarrow> s
                | Fulfilled \<Rightarrow>
                    s\<lparr>browser := Some p, contextCount := 0, browserLaunchPromise := None,
                      calls := (calls s)[c := Resolved p]\<rparr>
                | LaunchFailed \<Rightarrow>
                    s\<lparr>browserLaunchPromise := None, calls := (calls s)[c := Rejected]\<rparr>)
             else s
         | _ \<Rightarrow> s)
      else s)"

text \<open>A call that returned the launch promise settles as the promise does.\<close>

definition sharer_resumes :: "nat \<Rightarrow> pool \<Rightarrow> pool" where
  "sharer_resumes c s =
     (if c < length (calls s) then
        (case calls s ! c of
           Sharing p \<Rightarrow>
             if p < length (launches s) then
               (case launches s ! p of
                  Pending \<Rightarrow> s
                | Fulfilled \<Rightarrow> s\<lparr>calls := (calls s)[c := Resolved p]\<rparr>
                | LaunchFailed \<Rightarrow> s\<lparr>calls := (calls s)[c := Rejected]\<rparr>)
             else s
         | _ \<Rightarrow> s)
      else s)"

text \<open>\<open>getContext\<close> after its \<^verbatim>\<open>await this.getBrowser()\<close> has resolved:
  \<^verbatim>\<open>this.contextCount++\<close>.\<close>

definition context_issued :: "nat \<Rightarrow> pool \<Rightarrow> pool" where
  "context_issued c s =
     (if c < length (calls s) then
        (case calls s ! c of
           Resolved b \<Rightarrow> s\<lparr>contextCount := contextCount s + 1\<rparr>
         | _ \<Rightarrow> s)
      else s)"

datatype event =
    GetBrowser               \<comment> \<open>a new call of \<open>getBrowser\<close>\<close>
  | CloseSettled nat bool    \<comment> \<open>the \<open>close()\<close> awaited by this call has succeeded or failed\<close>
  | LaunchSettled nat bool   \<comment> \<open>this launch has succeeded or failed\<close>
  | LauncherResumes nat      \<comment> \<open>the call that awaits its own launch resumes\<close>
  | SharerResumes nat        \<comment> \<open>a call that shares a launch settles\<close>
  | ContextIssued nat        \<comment> \<open>\<open>getContext\<close> counts the context of this call\<close>
  | Disconnected nat         \<comment> \<open>this browser has crashed or was closed\<close>

fun step :: "event \<Rightarrow> pool \<Rightarrow> pool" where
  "step GetBrowser s = getBrowser_called s"
| "step (CloseSettled c ok) s = close_settled c s"
| "step (LaunchSettled p ok) s = launch_settled p ok s"
| "step (LauncherResumes c) s = launcher_resumes c s"
| "step (SharerResumes c) s = sharer_resumes c s"
| "step (ContextIssued c) s = context_issued c s"
| "step (Disconnected b) s = s\<lparr>isConnected := (isConnected s)(b := False)\<rparr>"

definition run :: "event list \<Rightarrow> pool \<Rightarrow> pool" where
  "run es s = fold step es s"

text \<open>The launches in flight: started and not yet settled.\<close>

definition in_flight :: "pool \<Rightarrow> nat list" where
  "in_flight s = filter (\<lambda>p. launches s ! p = Pending) [0..<length (launches s)]"

text \<open>One call of \<open>getBrowser\<close> run to its end with no other call in between.
  \<open>close_ok\<close> says whether \<open>close()\<close>, if the call closes a browser, succeeds, and
  \<open>launch_ok\<close> whether a launch, if the call starts one, succeeds.\<close>

definition getBrowser_alone :: "bool \<Rightarrow> bool \<Rightarrow> pool \<Rightarrow> pool" where
  "getBrowser_alone close_ok launch_ok s =
     run [GetBrowser, CloseSettled (length (calls s)) close_ok,
          LaunchSettled (length (launches s)) launch_ok,
          LauncherResumes (length (calls s))] s"

text \<open>\<open>getContext\<close> alone: \<open>getBrowser\<close>, then the counter.\<close>

definition getContext_alone :: "bool \<Rightarrow> bool \<Rightarrow> pool \<Rightarrow> pool" where
  "getContext_alone close_ok launch_ok s =
     run [ContextIssued (length (calls s))] (getBrowser_alone close_ok launch_ok s)"

text \<open>What holds of the pool in every state it can reach: a launch in flight is the one
  the stored promise stands for; the call awaiting its own launch is the one that stored
  the promise, and there is one such call at most; while a promise is stored there is no
  browser; shared launches and the browser come from launches that were started.\<close>

definition inv_pending :: "pool \<Rightarrow> bool" where
  "inv_pending s \<longleftrightarrow>
     (\<forall>p < length (launches s). launches s ! p = Pending \<longrightarrow> browserLaunchPromise s = Some p)"

definition inv_launcher :: "pool \<Rightarrow> bool" where
  "inv_launcher s \<longleftrightarrow>
     (\<forall>c < length (calls s). \<forall>p. calls s ! c = Launching p \<longrightarrow> browserLaunchPromise s = Some p)"

definition inv_unique :: "pool \<Rightarrow> bool" where
  "inv_unique s \<longleftrightarrow>
     (\<forall>c < length (calls s). \<forall>c' < length (calls s). \<forall>p q.
         calls s ! c = Launching p \<longrightarrow> calls s ! c' = Launching q \<longrightarrow> c = c')"

definition inv_marker :: "pool \<Rightarrow> bool" where
  "inv_marker s \<longleftrightarrow>
     (\<forall>p. browserLaunchPromise s = Some p \<longrightarrow>
         browser s = None \<and> p < length (launches s)
         \<and> (\<exists>c < length (calls s). calls s ! c = Launching p))"

definition inv_sharing :: "pool \<Rightarrow> bool" where
  "inv_sharing s \<longleftrightarrow>
     (\<forall>c < length (calls s). \<forall>p. calls s ! c = Sharing p \<longrightarrow> p < length (launches s))"

definition inv_browser :: "pool \<Rightarrow> bool" where
  "inv_browser s \<longleftrightarrow> (\<forall>b. browser s = Some b \<longrightarrow> b < length (launches s))"

definition pool_inv :: "pool \<Rightarrow> bool" where
  "pool_inv s \<longleftrightarrow>
     inv_pending s \<and> inv_launcher s \<and> inv_unique s \<and> inv_marker s \<and> inv_sharing s
     \<and> inv_browser s"

section \<open>Process reaper: \<open>GarbageCollector\<close>\<close>

record GCConfig =
  intervalMs :: real
  maxProcessAgeMs :: real
  verbose :: bool

definition DEFAULT_CONFIG :: GCConfig where
  "DEFAULT_CONFIG =
     \<lparr>intervalMs = 5 * 60 * 1000, maxProcessAgeMs = 30 * 60 * 1000, verbose = False\<rparr>"

record ProcessInfo =
  pid :: nat
  etime :: nat
  cmd :: string

text \<open>
  The numbers of the source are doubles, and a quotient is rounded to a double. The
  rounding is a parameter \<open>fl\<close> of the model: \<open>fl x\<close> is the double that stands for the real
  number \<open>x\<close>. The elapsed time is an integer that \<open>parseInt\<close> read, and the maximum age is
  a finite double, both taken with their exact value.
\<close>

definition isOrphanedChrome :: "(real \<Rightarrow> real) \<Rightarrow> GCConfig \<Rightarrow> ProcessInfo \<Rightarrow> bool" where
  "isOrphanedChrome fl cfg proc =
     (if \<not> str_includes (cmd proc) ''playwright''
         \<and> \<not> str_includes (cmd proc) ''user-data-dir=/tmp/playwright''
      then False
      else (let ageMinutes = fl (real (etime proc) / 60)
            in ageMinutes > fl (maxProcessAgeMs cfg / 60000)))"

text \<open>The loop of \<open>runGC\<close> over the processes \<open>findChromeProcesses\<close> has listed, with
  \<open>maxAgeSeconds\<close> computed before it; \<open>given\<close> holds the pids given to \<open>killProcess\<close> so
  far.\<close>

fun gc_loop ::
  "(real \<Rightarrow> real) \<Rightarrow> GCConfig \<Rightarrow> nat \<Rightarrow> real \<Rightarrow> ProcessInfo list \<Rightarrow> nat list \<Rightarrow> nat list" where
  "gc_loop fl cfg myPid maxAgeSeconds [] given = given"
| "gc_loop fl cfg myPid maxAgeSeconds (proc # rest) given =
     (if real (etime proc) < maxAgeSeconds then gc_loop fl cfg myPid maxAgeSeconds rest given
      else if pid proc = myPid then gc_loop fl cfg myPid maxAgeSeconds rest given
      else if isOrphanedChrome fl cfg proc
        then gc_loop fl cfg myPid maxAgeSeconds rest (given @ [pid proc])
      else gc_loop fl cfg myPid maxAgeSeconds rest given)"

text \<open>What a sweep does and returns. \<open>killProcess\<close> sends its process \<open>SIGTERM\<close> and, when
  the process is still alive a second later, \<open>SIGKILL\<close>; it swallows the errors of both.
  The sweep sends no signal to any other process.\<close>

record sweep =
  signalled :: "nat list"   \<comment> \<open>the pids given to \<open>killProcess\<close>, in order\<close>
  killed :: nat
  checked :: nat

definition runGC :: "(real \<Rightarrow> real) \<Rightarrow> GCConfig \<Rightarrow> nat \<Rightarrow> ProcessInfo list \<Rightarrow> sweep" where
  "runGC fl cfg myPid chromeProcesses =
     (let maxAgeSeconds = fl (maxProcessAgeMs cfg / 1000);
          pids = gc_loop fl cfg myPid maxAgeSeconds chromeProcesses []
      in \<lparr>signalled = pids, killed = length pids, checked = length chromeProcesses\<rparr>)"

text \<open>The two marks \<open>isOrphanedChrome\<close> looks for in a command line: the name of the
  automation engine anywhere, and its temporary profile directory.\<close>

definition mentions_playwright :: "string \<Rightarrow> bool" where
  "mentions_playwright c = str_includes c ''playwright''"

definition references_temp_profile :: "string \<Rightarrow> bool" where
  "references_temp_profile c = str_includes c ''user-data-dir=/tmp/playwright''"

section \<open>Content extraction: \<open>EnhancedContentExtractor\<close>\<close>

text \<open>The body of a response as the HTTP client hands it on: a text, a parsed JSON
  array, of which the elements that are strings are kept, or a value that has no
  \<open>includes\<close> method, such as a parsed JSON object or a number.\<close>

datatype response_data =
    TextData string
  | ArrayData "string list"
  | OtherData

text \<open>A thrown value: an error of the HTTP client with its \<open>code\<close>, the status and the
  body of its response (\<open>None\<close> when there is no response, or no body) and its message;
  another \<open>Error\<close> with its message; a value that is no \<open>Error\<close> and has neither a
  \<open>response\<close> nor a \<open>message\<close>; or \<open>null\<close> or \<open>undefined\<close>.\<close>

datatype js_error =
    AxiosError "string option" "nat option" string "response_data option"
  | PlainError string
  | NonError
  | Nullish

fun err_status :: "js_error \<Rightarrow> nat option" where
  "err_status (AxiosError c st m d) = st"
| "err_status e = None"

fun err_message :: "js_error \<Rightarrow> string option" where
  "err_message (AxiosError c st m d) = Some m"
| "err_message (PlainError m) = Some m"
| "err_message e = None"

fun err_data :: "js_error \<Rightarrow> response_data option" where
  "err_data (AxiosError c st m d) = d"
| "err_data e = None"

record ContentExtractionOptions =
  opt_url :: string
  opt_timeout :: "nat option"
  opt_maxContentLength :: "nat option"

record extractor =
  defaultTimeout :: nat
  maxContentLength :: nat

text \<open>\<open>new EnhancedContentExtractor()\<close> with no environment variable set.\<close>

definition default_extractor :: extractor where
  "default_extractor = \<lparr>defaultTimeout = 30000, maxContentLength = 500000\<rparr>"

definition isLowQualityContent :: "string \<Rightarrow> bool" where
  "isLowQualityContent content \<longleftrightarrow>
     list_ex (\<lambda>indicator. indicator = True)
       [length content < 100,
        str_includes content ''Please enable JavaScript'',
        str_includes content ''Access Denied'',
        str_includes content ''403 Forbidden'',
        str_includes content ''captcha'',
        str_includes content ''unusual traffic'',
        str_includes content ''robot'',
        list_all is_space content]"

definition opt_includes :: "string option \<Rightarrow> string \<Rightarrow> bool" where
  "opt_includes s w = (case s of None \<Rightarrow> False | Some t \<Rightarrow> str_includes t w)"

text \<open>\<^verbatim>\<open>error.response?.data?.includes(w)\<close> on a body that is there and has the method.\<close>

fun data_includes :: "response_data option \<Rightarrow> string \<Rightarrow> bool" where
  "data_includes (Some (TextData t)) w = str_includes t w"
| "data_includes (Some (ArrayData xs)) w = (w \<in> set xs)"
| "data_includes d w = False"

text \<open>
  \<open>shouldUseBrowser\<close> builds the whole list of indicators before it looks at any of them.
  Reading \<open>error.response\<close> of \<open>null\<close> or \<open>undefined\<close> throws, and so does the call of
  \<open>includes\<close> on a body that has no such method, whatever the other indicators are; the
  \<open>TypeError\<close> is given the message of Node's engine.
\<close>

definition shouldUseBrowser :: "js_error \<Rightarrow> string \<Rightarrow> js_error + bool" where
  "shouldUseBrowser err u =
     (if err = Nullish
      then Inl (PlainError ''Cannot read properties of null (reading 'response')'')
      else if err_data err = Some OtherData
      then Inl (PlainError ''error.response?.data?.includes is not a function'')
      else Inr (list_ex (\<lambda>indicator. indicator = True)
       [err_status err = Some 403,
        err_status err = Some 429,
        err_status err = Some 503,
        opt_includes (err_message err) ''timeout'',
        opt_includes (err_message err) ''Access denied'',
        opt_includes (err_message err) ''Forbidden'',
        opt_includes (err_message err) ''Low quality content detected'',
        data_includes (err_data err) ''Please enable JavaScript'',
        data_includes (err_data err) ''captcha'',
        data_includes (err_data err) ''unusual traffic'',
        data_includes (err_data err) ''robot'',
        str_includes u ''twitter.com'',
        str_includes u ''facebook.com'',
        str_includes u ''instagram.com'',
        str_includes u ''linkedin.com'',
        str_includes u ''reddit.com'',
        str_includes u ''medium.com'']))"

text \<open>
  The HTTP client, the browser and the HTML parser are external. The lightweight path is
  given what \<open>axios.get\<close> does, and the rendered path what the browser session does:
  \<open>Inl\<close> the error thrown, \<open>Inr\<close> the text \<open>parseContent\<close> makes of the body or of the
  rendered page.
\<close>

definition extractWithAxios ::
  "extractor \<Rightarrow> ContentExtractionOptions \<Rightarrow> js_error + string \<Rightarrow> js_error + string" where
  "extractWithAxios ex options response =
     (case response of
        Inl e \<Rightarrow> Inl e
      | Inr parsed \<Rightarrow>
          (let maxLen = (case opt_maxContentLength options of
                           None \<Rightarrow> maxContentLength ex
                         | Some m \<Rightarrow> m);
               content = (if maxLen \<noteq> 0 \<and> length parsed > maxLen
                          then take maxLen parsed else parsed)
           in if isLowQualityContent content
              then Inl (PlainError ''Low quality content detected - likely bot detection'')
              else Inr content))"

definition extractWithBrowser ::
  "extractor \<Rightarrow> ContentExtractionOptions \<Rightarrow> js_error + string \<Rightarrow> js_error + string" where
  "extractWithBrowser ex options rendered =
     (case rendered of
        Inl e \<Rightarrow> Inl e
      | Inr parsed \<Rightarrow> Inr parsed)"

definition extractContent ::
  "extractor \<Rightarrow> ContentExtractionOptions \<Rightarrow> js_error + string \<Rightarrow> js_error + string
     \<Rightarrow> js_error + string" where
  "extractContent ex options response rendered =
     (case extractWithAxios ex options response of
        Inr content \<Rightarrow> Inr content
      | Inl err \<Rightarrow>
          (case shouldUseBrowser err (opt_url options) of
             Inl typeError \<Rightarrow> Inl typeError
           | Inr True \<Rightarrow>
               (case extractWithBrowser ex options rendered of
                  Inr content \<Rightarrow> Inr content
                | Inl browserError \<Rightarrow>
                    Inl (PlainError
                      (''Both axios and browser extraction failed for '' @ opt_url options)))
           | Inr False \<Rightarrow> Inl err))"

subsection \<open>Bulk extraction\<close>

text \<open>\<^verbatim>\<open>String(n)\<close> for a status code.\<close>

definition digit :: "nat \<Rightarrow> char" where
  "digit n = ''0123456789'' ! (n mod 10)"

function show_nat :: "nat \<Rightarrow> string" where
  "show_nat n = (if n < 10 then [digit n] else show_nat (n div 10) @ [digit n])"
  by pat_completeness auto
termination
  by (relation "measure id") auto

declare show_nat.simps [simp del]

definition getSpecificErrorMessage :: "js_error \<Rightarrow> string" where
  "getSpecificErrorMessage err =
     (case err of
        AxiosError code st msg d \<Rightarrow>
          if code = Some ''ECONNABORTED'' then ''Request timeout''
          else if st = Some 403 then ''403 Forbidden - Access denied''
          else if st = Some 404 then ''404 Not found''
          else if str_includes msg ''maxContentLength'' then ''Content too long''
          else (case st of
                  Some n \<Rightarrow>
                    if n \<noteq> 0 then ''HTTP '' @ show_nat n @ '': '' @ msg
                    else ''Network error: '' @ msg
                | None \<Rightarrow> ''Network error: '' @ msg)
      | PlainError msg \<Rightarrow> msg
      | NonError \<Rightarrow> ''Unknown error''
      | Nullish \<Rightarrow> ''Unknown error'')"

text \<open>The helpers of \<^verbatim>\<open>utils.js\<close>, which is not among the sources, are parameters.\<close>

record utils =
  isPdfUrl :: "string \<Rightarrow> bool"
  cleanText :: "string \<Rightarrow> nat \<Rightarrow> string"
  getContentPreview :: "string \<Rightarrow> string"
  getWordCount :: "string \<Rightarrow> nat"
  generateTimestamp :: string

text \<open>What the network does for a URL: the outcome of the HTTP request, the outcome of
  the browser session, and whether the extraction is still running when the outer timer
  of 50 seconds fires.\<close>

record web =
  http_get :: "string \<Rightarrow> js_error + string"
  render :: "string \<Rightarrow> js_error + string"
  stalls :: "string \<Rightarrow> bool"

text \<open>\<^verbatim>\<open>Promise.race([extractionPromise, timeoutPromise])\<close>.\<close>

definition race :: "extractor \<Rightarrow> web \<Rightarrow> string \<Rightarrow> js_error + string" where
  "race ex net u =
     (if stalls net u then Inl (PlainError ''Content extraction timeout'')
      else extractContent ex
             \<lparr>opt_url = u, opt_timeout = Some 45000, opt_maxContentLength = None\<rparr>
             (http_get net u) (render net u))"

text \<open>The body of the \<open>map\<close> callback: one result, extracted or marked as failed.\<close>

definition extract_one :: "extractor \<Rightarrow> utils \<Rightarrow> web \<Rightarrow> SearchResult \<Rightarrow> SearchResult" where
  "extract_one ex ut net result =
     (case race ex net (url result) of
        Inr content \<Rightarrow>
          (let cleanedContent = cleanText ut content (maxContentLength ex)
           in result\<lparr>fullContent := cleanedContent,
                     contentPreview := getContentPreview ut cleanedContent,
                     wordCount := getWordCount ut cleanedContent,
                     timestamp := generateTimestamp ut,
                     fetchStatus := success\<rparr>)
      | Inl err \<Rightarrow>
          result\<lparr>fullContent := [], contentPreview := [], wordCount := 0,
                  timestamp := generateTimestamp ut, fetchStatus := error,
                  error_msg := Some (getSpecificErrorMessage err)\<rparr>)"

definition resultsToProcess :: "utils \<Rightarrow> SearchResult list \<Rightarrow> nat \<Rightarrow> SearchResult list" where
  "resultsToProcess ut results targetCount =
     (let nonPdfResults = filter (\<lambda>result. \<not> isPdfUrl ut (url result)) results
      in take (min (targetCount * 2) 10) nonPdfResults)"

definition extractContentForResults ::
  "extractor \<Rightarrow> utils \<Rightarrow> web \<Rightarrow> SearchResult list \<Rightarrow> nat \<Rightarrow> SearchResult list" where
  "extractContentForResults ex ut net results targetCount =
     (let allResults = map (extract_one ex ut net) (resultsToProcess ut results targetCount);
          successfulResults = filter (\<lambda>r. fetchStatus r = success) allResults;
          failedResults = filter (\<lambda>r. fetchStatus r = error) allResults
      in take targetCount
           (take targetCount successfulResults
            @ take (max 0 (targetCount - length successfulResults)) failedResults))"

text \<open>The five classes of messages the specification names for a failed item: timeout,
  403, 404, content too long, generic network error.\<close>

definition spec_classified :: "string \<Rightarrow> bool" where
  "spec_classified m \<longleftrightarrow>
     m = ''Request timeout'' \<or> m = ''403 Forbidden - Access denied'' \<or> m = ''404 Not found''
     \<or> m = ''Content too long'' \<or> startsWith m ''Network error: ''"

section \<open>Auxiliary notions\<close>

text \<open>A backend's outcome holds at most \<open>n\<close> results.\<close>

definition bounded :: "nat \<Rightarrow> SearchResult list option \<Rightarrow> bool" where
  "bounded n out = (case out of None \<Rightarrow> True | Some rs \<Rightarrow> length rs \<le> n)"


text \<open>What is shown of every process a sweep gives to \<open>killProcess\<close>: it is not the
  reaper itself, its elapsed time in milliseconds exceeds the maximum age, and its
  command line contains the name of the automation engine.\<close>

definition old_playwright_process :: "GCConfig \<Rightarrow> nat \<Rightarrow> ProcessInfo \<Rightarrow> bool" where
  "old_playwright_process cfg myPid proc \<longleftrightarrow>
     pid proc \<noteq> myPid \<and> real (etime proc) * 1000 > maxProcessAgeMs cfg
     \<and> mentions_playwright (cmd proc)"

text \<open>A rounding is monotone: it keeps the order of the numbers it rounds, as rounding
  to the nearest double does.\<close>

definition monotone_rounding :: "(real \<Rightarrow> real) \<Rightarrow> bool" where
  "monotone_rounding fl \<longleftrightarrow> mono fl"

section \<open>Example inputs\<close>

definition no_platform :: platform where
  "no_platform = \<lparr>url_uddg = (\<lambda>u. Some None), decodeURIComponent = Some\<rparr>"

definition empty_doc :: document where
  "empty_doc =
     \<lparr>sel_brave_web = [], sel_brave_snippet = [], sel_bing_algo = [], sel_ddg_article = [],
      sel_ddg_result = []\<rparr>"

text \<open>Two hits, of which the first one mentions the words of the query
  \<open>python tutorial\<close>.\<close>

definition two_hits :: "element list" where
  "two_hits =
     [\<lparr>el_title = ''Python Tutorial'', el_href = Some ''https://a.example/'',
       el_snippet = ''Learn''\<rparr>,
      \<lparr>el_title = ''Cooking'', el_href = Some ''https://b.example/'', el_snippet = ''Food''\<rparr>]"

definition two_results :: "SearchResult list" where
  "two_results =
     [mk_result ''Python Tutorial'' ''https://a.example/'' ''Learn'' ''t'',
      mk_result ''Cooking'' ''https://b.example/'' ''Food'' ''t'']"

text \<open>Only Bing answers; the other three backends throw.\<close>

definition pages_bing_only :: pages where
  "pages_bing_only =
     \<lparr>ddg_browser_page = Failed, bing_page = Html (empty_doc\<lparr>sel_bing_algo := two_hits\<rparr>),
      brave_page = Failed, ddg_axios_page = Failed\<rparr>"

text \<open>The first backend, DuckDuckGo in the browser, answers, and so would Bing.\<close>

definition pages_ddg_and_bing :: pages where
  "pages_ddg_and_bing =
     \<lparr>ddg_browser_page = Html (empty_doc\<lparr>sel_ddg_article := two_hits\<rparr>),
      bing_page = Html (empty_doc\<lparr>sel_bing_algo := two_hits\<rparr>),
      brave_page = Failed, ddg_axios_page = Failed\<rparr>"





text \<open>Three calls of \<open>getBrowser\<close> on a pool that has no browser yet, none of them
  resumed.\<close>

definition three_callers :: pool where
  "three_callers = run [GetBrowser, GetBrowser, GetBrowser] initial_pool"

text \<open>A pool whose first browser has just been launched.\<close>

definition fresh_browser :: pool where
  "fresh_browser = run [GetBrowser, LaunchSettled 0 True, LauncherResumes 0] initial_pool"

text \<open>The rounding that changes nothing. The quotients of the examples, 2400 / 60,
  60 / 60, 1800000 / 60000 and 1800000 / 1000, are integers, which rounding to a double
  leaves as they are.\<close>

definition exact :: "real \<Rightarrow> real" where
  "exact x = x"

text \<open>Four processes of 40 minutes and of one minute, seen by the reaper whose own pid
  is 7; and a process of 40 minutes whose command line names the automation engine's
  install directory, not its temporary profile.\<close>

definition procs_example :: "ProcessInfo list" where
  "procs_example =
     [\<lparr>pid = 100, etime = 2400,
       cmd = ''chrome --user-data-dir=/tmp/playwright_chromiumdev_profile-x1''\<rparr>,
      \<lparr>pid = 101, etime = 2400, cmd = ''chrome --type=renderer''\<rparr>,
      \<lparr>pid = 7, etime = 2400, cmd = ''node playwright chrome''\<rparr>,
      \<lparr>pid = 102, etime = 60,
       cmd = ''chrome --user-data-dir=/tmp/playwright_chromiumdev_profile-x2''\<rparr>]"

definition proc_no_profile :: ProcessInfo where
  "proc_no_profile =
     \<lparr>pid = 4242, etime = 2400, cmd = ''/opt/ms-playwright/chromium/chrome --headless''\<rparr>"

text \<open>An extraction with \<open>maxContentLength = 1000\<close>, and the HTTP client's error for a
  response with status 403.\<close>

definition opts_1000 :: ContentExtractionOptions where
  "opts_1000 =
     \<lparr>opt_url = ''https://example.org/article'', opt_timeout = None,
      opt_maxContentLength = Some 1000\<rparr>"

definition forbidden_403 :: js_error where
  "forbidden_403 =
     AxiosError (Some ''ERR_BAD_REQUEST'') (Some 403) ''Request failed with status code 403'' None"

text \<open>Sample values for the helpers of \<^verbatim>\<open>utils.js\<close>, a network on which every request is
  answered with status 403 and every browser session fails, and one search result.\<close>

definition sample_utils :: utils where
  "sample_utils =
     \<lparr>isPdfUrl = (\<lambda>u. str_includes u ''.pdf''), cleanText = (\<lambda>s n. take n s),
      getContentPreview = take 500, getWordCount = (\<lambda>s. length (split_ws s)),
      generateTimestamp = ''now''\<rparr>"

definition blocked_web :: web where
  "blocked_web =
     \<lparr>http_get = (\<lambda>u. Inl forbidden_403),
      render = (\<lambda>u. Inl (PlainError ''net::ERR_FAILED'')), stalls = (\<lambda>u. False)\<rparr>"

definition one_result :: "SearchResult list" where
  "one_result = [mk_result ''A'' ''https://example.org/a'' ''d'' ''t'']"

section \<open>Properties of the strings\<close>

lemma startsWith_iff: "startsWith s w \<longleftrightarrow> (\<exists>ss. s = w @ ss)"
  unfolding startsWith_def
  by (metis append_eq_conv_conj append_take_drop_id)

lemma str_includes_iff: "str_includes s w \<longleftrightarrow> (\<exists>ps ss. s = ps @ w @ ss)"
proof (induction s)
  case Nil
  then show ?case by auto
next
  case (Cons c cs)
  show ?case
  proof
    assume "str_includes (c # cs) w"
    then consider "startsWith (c # cs) w" | "str_includes cs w" by auto
    then show "\<exists>ps ss. c # cs = ps @ w @ ss"
    proof cases
      case 1
      then obtain ss where "c # cs = w @ ss" by (auto simp: startsWith_iff)
      then have "c # cs = [] @ w @ ss" by simp
      then show ?thesis by blast
    next
      case 2
      then obtain ps ss where "cs = ps @ w @ ss" using Cons.IH by auto
      then have "c # cs = (c # ps) @ w @ ss" by simp
      then show ?thesis by blast
    qed
  next
    assume "\<exists>ps ss. c # cs = ps @ w @ ss"
    then obtain ps ss where e: "c # cs = ps @ w @ ss" by blast
    show "str_includes (c # cs) w"
    proof (cases ps)
      case Nil
      with e have "startsWith (c # cs) w" by (auto simp: startsWith_iff)
      then show ?thesis by simp
    next
      case (Cons p ps')
      with e have "cs = ps' @ w @ ss" by simp
      then have "str_includes cs w" using Cons.IH by blast
      then show ?thesis by simp
    qed
  qed
qed

lemmas string_eval =
  queryWords_def toLowerCase_def lower_char_def split_ws.simps is_space_def startsWith_def

section \<open>Quality scoring\<close>

lemma matchCount_le: "matchCount rs q \<le> length rs"
  by (simp add: matchCount_def)

lemma matchCount_eq:
  "matchCount rs q =
     length (filter (\<lambda>r. \<exists>w \<in> set (queryWords q).
        str_includes (toLowerCase (title r)) w
        \<or> str_includes (toLowerCase (description r)) w) rs)"
  by (simp add: matchCount_def result_matches_def list_ex_iff cong: filter_cong)

lemma two_results_quality: "assessResultQuality two_results ''python tutorial'' = 1 / 2"
  by (simp add: assessResultQuality_def matchCount_def result_matches_def two_results_def
      mk_result_def string_eval)

text \<open>
  Claim C6, as the code has it: \<open>assessResultQuality\<close> always returns a value between 0
  and 1. For a result list that is not empty: when the query has a lowercased word of
  more than 3 characters, the value is the number of results whose lowercased title or
  description contains such a word, divided by the number of results; when the query
  has no such word, the value is 1. For the empty result list the value is 0, whatever
  the query.
\<close>

theorem assessResultQuality_score:
  "0 \<le> assessResultQuality rs q \<and> assessResultQuality rs q \<le> 1
   \<and> (rs \<noteq> [] \<longrightarrow> queryWords q \<noteq> [] \<longrightarrow>
        assessResultQuality rs q =
          real (length (filter (\<lambda>r. \<exists>w \<in> set (queryWords q).
                  str_includes (toLowerCase (title r)) w
                  \<or> str_includes (toLowerCase (description r)) w) rs))
          / real (length rs))
   \<and> (rs \<noteq> [] \<longrightarrow> queryWords q = [] \<longrightarrow> assessResultQuality rs q = 1)
   \<and> assessResultQuality [] q = 0"
proof -
  have "real (matchCount rs q) \<le> real (length rs)"
    using matchCount_le [of rs q] by simp
  then have "rs \<noteq> [] \<Longrightarrow> real (matchCount rs q) / real (length rs) \<le> 1"
    by (simp add: divide_le_eq_1)
  then show ?thesis
    unfolding matchCount_eq [symmetric] by (auto simp: assessResultQuality_def)
qed

theorem assessResultQuality_score_witness:
  "two_results \<noteq> [] \<and> queryWords ''python tutorial'' \<noteq> []
   \<and> assessResultQuality two_results ''python tutorial'' = 1 / 2
   \<and> queryWords ''cat'' = [] \<and> assessResultQuality two_results ''cat'' = 1"
proof -
  have a: "two_results \<noteq> []" by (simp add: two_results_def)
  have b: "queryWords ''python tutorial'' \<noteq> []" by (simp add: string_eval)
  have c: "queryWords ''cat'' = []" by (simp add: string_eval)
  from assessResultQuality_score [of two_results "''cat''"] a c
  have "assessResultQuality two_results ''cat'' = 1" by blast
  moreover from assessResultQuality_score [of two_results "''python tutorial''"] a b
  have "assessResultQuality two_results ''python tutorial''
        = real (matchCount two_results ''python tutorial'') / real (length two_results)"
    unfolding matchCount_eq by blast
  then have "assessResultQuality two_results ''python tutorial'' = 1 / 2"
    by (simp add: two_results_quality)
  ultimately show ?thesis using a b c by simp
qed

text \<open>Claim C6 as stated fails at the empty result list: the query \<open>cat\<close> has no word of
  more than 3 characters, and the score of the empty list is 0, not 1.\<close>

theorem assessResultQuality_empty_counterexample:
  "queryWords ''cat'' = [] \<and> assessResultQuality [] ''cat'' \<noteq> 1"
  by (simp add: assessResultQuality_def string_eval)

section \<open>The length of the result list\<close>

lemma each_push_length: "length (each_push m conv es rs) \<le> max m (length rs)"
proof (induction es arbitrary: rs)
  case Nil
  then show ?case by simp
next
  case (Cons e es)
  have keep: "length (each_push m conv es rs) \<le> max m (length rs)"
    by (rule Cons.IH)
  have push: "length (each_push m conv es (rs @ [x])) \<le> max m (length rs)"
    if "\<not> m \<le> length rs" for x
    using Cons.IH [of "rs @ [x]"] that by simp
  show ?case
    using keep push by (cases "m \<le> length rs") (auto split: option.splits simp: max_def)
qed

lemma parse_lengths:
  "length (parseBraveResults ts html n) \<le> n"
  "length (parseBingResults ts html n) \<le> n"
  "length (parseDuckDuckGoResults pf ts html n) \<le> n"
  "length (parseDuckDuckGoBrowserResults ts html n) \<le> n"
  using each_push_length [of n _ _ "[]"]
  by (auto simp: parseBraveResults_def parseBingResults_def parseDuckDuckGoResults_def
      parseDuckDuckGoBrowserResults_def Let_def)

lemma attempt_length:
  assumes "bounded n out" "length (bestResults b) \<le> n"
  shows "case attempt cfg q lst name out b of
           Return rs e \<Rightarrow> length rs \<le> n
         | Continue b' \<Rightarrow> length (bestResults b') \<le> n"
  using assms by (auto simp: attempt_def bounded_def Let_def split: option.splits)

lemma search_loop_length:
  "list_all (\<lambda>(name, out). bounded n out) as \<Longrightarrow> length (bestResults b) \<le> n
   \<Longrightarrow> length (fst (search_loop cfg q as b)) \<le> n"
proof (induction as arbitrary: b)
  case Nil
  then show ?case by simp
next
  case (Cons a as)
  obtain name out where a: "a = (name, out)" by (cases a)
  from Cons.prems a have bo: "bounded n out"
    and rest: "list_all (\<lambda>(name, out). bounded n out) as"
    by auto
  from attempt_length [OF bo Cons.prems(2), of cfg q "as = []" name] Cons.IH [OF rest]
  show ?case by (auto simp: a split: decision.splits)
qed

lemma bing_only_results: "tryBrowserBingSearch ''t'' pages_bing_only 3 = Some two_results"
  by (simp add: tryBrowserBingSearch_def pages_bing_only_def parseBingResults_def
      empty_doc_def two_hits_def two_results_def)

text \<open>
  Claim C10: the list \<open>search\<close> returns has at most \<open>numResults\<close> entries, on every
  return path, because every parser stops pushing once \<open>numResults\<close> results are
  collected.
\<close>

theorem search_at_most_numResults:
  "length (fst (search cfg pf ts pg query numResults)) \<le> numResults
   \<and> length (parseBraveResults ts html numResults) \<le> numResults
   \<and> length (parseBingResults ts html numResults) \<le> numResults
   \<and> length (parseDuckDuckGoResults pf ts html numResults) \<le> numResults
   \<and> length (parseDuckDuckGoBrowserResults ts html numResults) \<le> numResults"
proof -
  have "list_all (\<lambda>(name, out). bounded numResults out) (approaches pf ts pg numResults)"
    by (auto simp: approaches_def bounded_def tryBrowserDuckDuckGoSearch_def
        tryBrowserBingSearch_def tryBrowserBraveSearch_def tryDuckDuckGoSearch_def
        parse_lengths split: fetched.splits)
  then have "length (fst (search cfg pf ts pg query numResults)) \<le> numResults"
    unfolding search_def rateLimiter_execute_def
    by (rule search_loop_length) (simp add: initial_best_def)
  then show ?thesis by (simp add: parse_lengths)
qed

theorem search_at_most_numResults_witness:
  "search default_config no_platform ''t'' pages_bing_only ''cat'' 1
     = ([mk_result ''Python Tutorial'' ''https://a.example/'' ''Learn'' ''t''], ''Browser Bing'')
   \<and> length (fst (search default_config no_platform ''t'' pages_bing_only ''cat'' 1)) \<le> 1"
proof -
  have "search default_config no_platform ''t'' pages_bing_only ''cat'' 1
     = ([mk_result ''Python Tutorial'' ''https://a.example/'' ''Learn'' ''t''], ''Browser Bing'')"
    by (simp add: search_def rateLimiter_execute_def approaches_def
        tryBrowserBingSearch_def parseBingResults_def empty_doc_def two_hits_def
        tryBrowserDuckDuckGoSearch_def tryBrowserBraveSearch_def tryDuckDuckGoSearch_def
        pages_bing_only_def attempt_def initial_best_def default_config_def
        assessResultQuality_def string_eval)
  then show ?thesis
    using search_at_most_numResults
      [of default_config no_platform "''t''" pages_bing_only "''cat''" 1]
    by simp
qed

section \<open>The fallback loop\<close>

lemmas backend_eval =
  tryBrowserDuckDuckGoSearch_def tryBrowserBingSearch_def tryBrowserBraveSearch_def
  tryDuckDuckGoSearch_def parseDuckDuckGoBrowserResults_def parseBingResults_def
  parseBraveResults_def parseDuckDuckGoResults_def empty_doc_def two_hits_def

text \<open>When every backend throws or returns no result, \<open>search\<close> returns the empty
  sentinel.\<close>

lemma search_loop_all_fail:
  "list_all (\<lambda>(name, out). out = None \<or> out = Some []) as
   \<Longrightarrow> search_loop cfg q as b = ([], ''None'')"
proof (induction as arbitrary: b)
  case Nil
  then show ?case by simp
next
  case (Cons a as)
  obtain name out where a: "a = (name, out)" by (cases a)
  from Cons.prems a have "out = None \<or> out = Some []" by simp
  then have "attempt cfg q (as = []) name out b = Continue b"
    by (auto simp: attempt_def)
  moreover from Cons.prems have "search_loop cfg q as b = ([], ''None'')"
    by (intro Cons.IH) simp
  ultimately show ?case by (simp add: a)
qed

lemma search_all_fail:
  assumes "tryBrowserDuckDuckGoSearch ts pg n \<in> {None, Some []}"
    and "tryBrowserBingSearch ts pg n \<in> {None, Some []}"
    and "tryBrowserBraveSearch ts pg n \<in> {None, Some []}"
    and "tryDuckDuckGoSearch pf ts pg n \<in> {None, Some []}"
  shows "search cfg pf ts pg q n = ([], ''None'')"
  unfolding search_def rateLimiter_execute_def
  by (rule search_loop_all_fail) (use assms in \<open>auto simp: approaches_def\<close>)

lemma approaches_bing_only:
  "approaches no_platform ''t'' pages_bing_only 3 =
     [(''Browser DuckDuckGo'', None), (''Browser Bing'', Some two_results),
      (''Browser Brave'', None), (''Axios DuckDuckGo'', None)]"
  by (simp add: approaches_def pages_bing_only_def backend_eval two_results_def)

lemma approaches_ddg_and_bing:
  "approaches no_platform ''t'' pages_ddg_and_bing 3 =
     [(''Browser DuckDuckGo'', Some two_results), (''Browser Bing'', Some two_results),
      (''Browser Brave'', None), (''Axios DuckDuckGo'', None)]"
  by (simp add: approaches_def pages_ddg_and_bing_def backend_eval two_results_def)

lemma two_results_nonempty: "length two_results = 2"
  by (simp add: two_results_def)

text \<open>
  Claim C1 says that \<open>search\<close> returns the empty sentinel only when every backend throws
  or returns an empty list, and otherwise the best set seen. The code does not: with
  the default configuration and the query \<open>python tutorial\<close>, Bing alone answers, with two
  results of quality 1/2, which is above the threshold 0.3; Bing's results are kept as
  the best so far and not returned, the two backends after it throw, and \<open>search\<close> falls
  out of the loop and returns the empty list with the engine \<open>None\<close>.
\<close>

theorem search_forgets_best_when_later_backends_fail:
  "tryBrowserBingSearch ''t'' pages_bing_only 3 = Some two_results
   \<and> assessResultQuality two_results ''python tutorial'' = 1 / 2
   \<and> search default_config no_platform ''t'' pages_bing_only ''python tutorial'' 3
       = ([], ''None'')"
proof -
  have "search default_config no_platform ''t'' pages_bing_only ''python tutorial'' 3
       = ([], ''None'')"
    by (simp add: search_def rateLimiter_execute_def approaches_bing_only attempt_def
        initial_best_def default_config_def two_results_quality two_results_nonempty)
  then show ?thesis
    by (simp add: bing_only_results two_results_quality)
qed

text \<open>
  Claim C2 says that results of acceptable quality (at least the threshold, below 0.8)
  are returned at once if and only if the backend is not the first one in the priority
  order. The code tests the name \<open>Browser Bing\<close>, and Bing is the second approach of the
  list: with the default configuration, the first backend, DuckDuckGo in the browser,
  answers with two results of quality 1/2 and they are returned at once, whereas the
  same results from Bing, which is not the first backend, are only kept as the best so
  far.
\<close>

theorem first_backend_returned_immediately:
  "map fst (approaches no_platform ''t'' pages_ddg_and_bing 3)
     = [''Browser DuckDuckGo'', ''Browser Bing'', ''Browser Brave'', ''Axios DuckDuckGo'']
   \<and> assessResultQuality two_results ''python tutorial'' = 1 / 2
   \<and> attempt default_config ''python tutorial'' False ''Browser DuckDuckGo''
         (Some two_results) initial_best
       = Return two_results ''Browser DuckDuckGo''
   \<and> search default_config no_platform ''t'' pages_ddg_and_bing ''python tutorial'' 3
       = (two_results, ''Browser DuckDuckGo'')
   \<and> attempt default_config ''python tutorial'' False ''Browser Bing''
         (Some two_results) initial_best
       = Continue \<lparr>bestResults = two_results, bestEngine = ''Browser Bing'',
                   bestQuality = 1 / 2\<rparr>"
proof -
  have a: "attempt default_config ''python tutorial'' False ''Browser DuckDuckGo''
         (Some two_results) initial_best
       = Return two_results ''Browser DuckDuckGo''"
    by (simp add: attempt_def initial_best_def default_config_def two_results_quality
        two_results_nonempty)
  have b: "attempt default_config ''python tutorial'' False ''Browser Bing''
         (Some two_results) initial_best
       = Continue \<lparr>bestResults = two_results, bestEngine = ''Browser Bing'',
                   bestQuality = 1 / 2\<rparr>"
    by (simp add: attempt_def initial_best_def default_config_def two_results_quality
        two_results_nonempty)
  have c: "search default_config no_platform ''t'' pages_ddg_and_bing ''python tutorial'' 3
       = (two_results, ''Browser DuckDuckGo'')"
    by (simp add: search_def rateLimiter_execute_def approaches_ddg_and_bing a)
  show ?thesis
    by (simp add: a b c approaches_ddg_and_bing two_results_quality)
qed

section \<open>The quota limiter\<close>

subsection \<open>One call run alone\<close>










subsection \<open>Calls made in turn\<close>









subsection \<open>The days until the reset, and the first use\<close>



subsection \<open>The claim\<close>





section \<open>The browser pool\<close>

subsection \<open>What holds in every state\<close>

lemma inv_initial: "pool_inv initial_pool"
  by (simp add: pool_inv_def inv_pending_def inv_launcher_def inv_unique_def inv_marker_def
      inv_sharing_def inv_browser_def initial_pool_def)

lemma inv_share_upd:
  assumes i: "pool_inv s" and c: "c < length (calls s)" and cl: "calls s ! c = Closing"
    and m: "browserLaunchPromise s = Some p"
  shows "pool_inv (s\<lparr>browser := None, calls := (calls s)[c := Sharing p]\<rparr>)"
proof -
  let ?t = "s\<lparr>browser := None, calls := (calls s)[c := Sharing p]\<rparr>"
  have 1: "inv_pending ?t" using i by (simp add: pool_inv_def inv_pending_def)
  have old: "(calls s)[c := Sharing p] ! c' = Launching q \<longleftrightarrow> calls s ! c' = Launching q"
    if "c' < length (calls s)" for c' q
    using c cl that by (cases "c' = c") auto
  have 2: "inv_launcher ?t"
    using i by (simp add: pool_inv_def inv_launcher_def old)
  have 3: "inv_unique ?t"
    using i by (simp add: pool_inv_def inv_unique_def old)
  from i m obtain c0 where c0: "c0 < length (calls s)" "calls s ! c0 = Launching p"
    and pl: "p < length (launches s)"
    by (auto simp: pool_inv_def inv_marker_def)
  from c0 cl have "c0 \<noteq> c" by auto
  with c0 have "c0 < length ((calls s)[c := Sharing p]) \<and> (calls s)[c := Sharing p] ! c0 = Launching p"
    by simp
  then have 4: "inv_marker ?t" using m pl by (auto simp: inv_marker_def)
  have "q < length (launches s)"
    if "c' < length (calls s)" "(calls s)[c := Sharing p] ! c' = Sharing q" for c' q
  proof (cases "c' = c")
    case True
    with that c pl show ?thesis by simp
  next
    case False
    with that have "calls s ! c' = Sharing q" by simp
    with i that(1) show ?thesis by (auto simp: pool_inv_def inv_sharing_def)
  qed
  then have 5: "inv_sharing ?t" by (simp add: inv_sharing_def)
  have 6: "inv_browser ?t" by (simp add: inv_browser_def)
  show ?thesis unfolding pool_inv_def using 1 2 3 4 5 6 by blast
qed

lemma inv_launch_upd:
  assumes i: "pool_inv s" and c: "c < length (calls s)" and cl: "calls s ! c = Closing"
    and m: "browserLaunchPromise s = None"
  shows "pool_inv (s\<lparr>browser := None, browserLaunchPromise := Some (length (launches s)),
           launches := launches s @ [Pending],
           calls := (calls s)[c := Launching (length (launches s))]\<rparr>)"
proof -
  let ?n = "length (launches s)"
  let ?t = "s\<lparr>browser := None, browserLaunchPromise := Some ?n,
           launches := launches s @ [Pending], calls := (calls s)[c := Launching ?n]\<rparr>"
  from i m have nol: "\<And>c' q. c' < length (calls s) \<Longrightarrow> calls s ! c' \<noteq> Launching q"
    by (auto simp: pool_inv_def inv_launcher_def)
  from i m have nop: "\<And>p. p < ?n \<Longrightarrow> launches s ! p \<noteq> Pending"
    by (auto simp: pool_inv_def inv_pending_def)
  have 1: "inv_pending ?t"
    using nop by (auto simp: inv_pending_def nth_append less_Suc_eq)
  have new: "c' = c \<and> q = ?n"
    if "c' < length (calls s)" "(calls s)[c := Launching ?n] ! c' = Launching q" for c' q
  proof (cases "c' = c")
    case True
    with that c show ?thesis by simp
  next
    case False
    with that have "calls s ! c' = Launching q" by simp
    with nol [OF that(1), of q] show ?thesis by simp
  qed
  have 2: "inv_launcher ?t"
    unfolding inv_launcher_def
  proof (intro allI impI)
    fix c' q
    assume "c' < length (calls ?t)" "calls ?t ! c' = Launching q"
    then have "c' < length (calls s)" "(calls s)[c := Launching ?n] ! c' = Launching q"
      by simp_all
    from new [OF this] show "browserLaunchPromise ?t = Some q" by simp
  qed
  have 3: "inv_unique ?t"
    unfolding inv_unique_def
  proof (intro allI impI)
    fix c1 c2 q1 q2
    assume "c1 < length (calls ?t)" "c2 < length (calls ?t)"
      "calls ?t ! c1 = Launching q1" "calls ?t ! c2 = Launching q2"
    then have "c1 < length (calls s)" "(calls s)[c := Launching ?n] ! c1 = Launching q1"
      "c2 < length (calls s)" "(calls s)[c := Launching ?n] ! c2 = Launching q2"
      by simp_all
    with new [of c1 q1] new [of c2 q2] show "c1 = c2" by simp
  qed
  have "c < length ((calls s)[c := Launching ?n]) \<and> (calls s)[c := Launching ?n] ! c = Launching ?n"
    using c by simp
  then have 4: "inv_marker ?t" unfolding inv_marker_def by auto
  have "q < Suc ?n"
    if "c' < length (calls s)" "(calls s)[c := Launching ?n] ! c' = Sharing q" for c' q
  proof (cases "c' = c")
    case True
    with that c show ?thesis by simp
  next
    case False
    with that have "calls s ! c' = Sharing q" by simp
    with i that(1) have "q < ?n" by (auto simp: pool_inv_def inv_sharing_def)
    then show ?thesis by simp
  qed
  then have 5: "inv_sharing ?t" by (simp add: inv_sharing_def)
  have 6: "inv_browser ?t" by (simp add: inv_browser_def)
  show ?thesis unfolding pool_inv_def using 1 2 3 4 5 6 by blast
qed

lemma inv_close_settled: "pool_inv s \<Longrightarrow> pool_inv (close_settled c s)"
proof (cases "c < length (calls s) \<and> calls s ! c = Closing")
  case True
  assume i: "pool_inv s"
  show ?thesis
  proof (cases "browserLaunchPromise s")
    case None
    with inv_launch_upd [OF i _ _ None, of c] True show ?thesis
      by (simp add: close_settled_def launch_or_share_def)
  next
    case (Some p)
    with inv_share_upd [OF i _ _ Some, of c] True show ?thesis
      by (simp add: close_settled_def launch_or_share_def)
  qed
next
  case False
  assume "pool_inv s"
  with False show ?thesis by (auto simp: close_settled_def)
qed

lemma inv_append_call:
  assumes i: "pool_inv s" and nl: "\<And>p. st \<noteq> Launching p" and ns: "\<And>p. st \<noteq> Sharing p"
  shows "pool_inv (s\<lparr>calls := calls s @ [st]\<rparr>)"
proof -
  let ?t = "s\<lparr>calls := calls s @ [st]\<rparr>"
  have oldL: "c < length (calls s) \<and> calls s ! c = Launching q"
    if "c < length (calls ?t)" "calls ?t ! c = Launching q" for c q
    using that nl [of q] by (cases "c < length (calls s)") (auto simp: nth_append)
  have oldS: "c < length (calls s) \<and> calls s ! c = Sharing q"
    if "c < length (calls ?t)" "calls ?t ! c = Sharing q" for c q
    using that ns [of q] by (cases "c < length (calls s)") (auto simp: nth_append)
  have 1: "inv_pending ?t" using i by (simp add: pool_inv_def inv_pending_def)
  have 2: "inv_launcher ?t"
    unfolding inv_launcher_def
  proof (intro allI impI)
    fix c q
    assume "c < length (calls ?t)" "calls ?t ! c = Launching q"
    from oldL [OF this] i show "browserLaunchPromise ?t = Some q"
      by (auto simp: pool_inv_def inv_launcher_def)
  qed
  have 3: "inv_unique ?t"
    unfolding inv_unique_def
  proof (intro allI impI)
    fix c1 c2 q1 q2
    assume a: "c1 < length (calls ?t)" "c2 < length (calls ?t)"
      "calls ?t ! c1 = Launching q1" "calls ?t ! c2 = Launching q2"
    from oldL [OF a(1) a(3)] oldL [OF a(2) a(4)] i show "c1 = c2"
      unfolding pool_inv_def inv_unique_def by blast
  qed
  have 4: "inv_marker ?t"
    unfolding inv_marker_def
  proof (intro allI impI)
    fix p
    assume "browserLaunchPromise ?t = Some p"
    then have m: "browserLaunchPromise s = Some p" by simp
    with i obtain c where c: "c < length (calls s)" "calls s ! c = Launching p"
      and b: "browser s = None" "p < length (launches s)"
      by (auto simp: pool_inv_def inv_marker_def)
    from c have "c < length (calls ?t) \<and> calls ?t ! c = Launching p"
      by (simp add: nth_append)
    with b show "browser ?t = None \<and> p < length (launches ?t)
        \<and> (\<exists>c < length (calls ?t). calls ?t ! c = Launching p)"
      by auto
  qed
  have 5: "inv_sharing ?t"
    unfolding inv_sharing_def
  proof (intro allI impI)
    fix c q
    assume "c < length (calls ?t)" "calls ?t ! c = Sharing q"
    from oldS [OF this] i show "q < length (launches ?t)"
      by (auto simp: pool_inv_def inv_sharing_def)
  qed
  have 6: "inv_browser ?t" using i by (simp add: pool_inv_def inv_browser_def)
  show ?thesis unfolding pool_inv_def using 1 2 3 4 5 6 by blast
qed

lemma inv_closeCalls_eq: "pool_inv (s\<lparr>closeCalls := x\<rparr>) = pool_inv s"
  by (simp add: pool_inv_def inv_pending_def inv_launcher_def inv_unique_def inv_marker_def
      inv_sharing_def inv_browser_def)

lemma inv_closeCalls: "pool_inv s \<Longrightarrow> pool_inv (s\<lparr>closeCalls := x\<rparr>)"
  by (simp only: inv_closeCalls_eq)

lemma getBrowser_called_None:
  "browser s = None \<Longrightarrow>
     getBrowser_called s = close_settled (length (calls s)) (s\<lparr>calls := calls s @ [Closing]\<rparr>)"
  by (cases "browserLaunchPromise s")
    (simp_all add: getBrowser_called_def close_settled_def launch_or_share_def)

lemma inv_getBrowser_called: "pool_inv s \<Longrightarrow> pool_inv (getBrowser_called s)"
proof (cases "browser s")
  case None
  assume i: "pool_inv s"
  have "pool_inv (s\<lparr>calls := calls s @ [Closing]\<rparr>)"
    by (rule inv_append_call [OF i]) simp_all
  then show ?thesis
    unfolding getBrowser_called_None [OF None] by (rule inv_close_settled)
next
  case (Some b)
  assume i: "pool_inv s"
  have a: "pool_inv (s\<lparr>calls := calls s @ [Resolved b]\<rparr>)"
    by (rule inv_append_call [OF i]) simp_all
  have "pool_inv ((s\<lparr>closeCalls := closeCalls s @ [b]\<rparr>)\<lparr>calls := calls s @ [Closing]\<rparr>)"
    using inv_append_call [OF inv_closeCalls [OF i], of Closing "closeCalls s @ [b]"] by simp
  with a show ?thesis
    by (simp add: getBrowser_called_def Some)
qed

lemma inv_contextCount_eq: "pool_inv (s\<lparr>contextCount := x\<rparr>) = pool_inv s"
  by (simp add: pool_inv_def inv_pending_def inv_launcher_def inv_unique_def inv_marker_def
      inv_sharing_def inv_browser_def)

lemma inv_isConnected_eq: "pool_inv (s\<lparr>isConnected := x\<rparr>) = pool_inv s"
  by (simp add: pool_inv_def inv_pending_def inv_launcher_def inv_unique_def inv_marker_def
      inv_sharing_def inv_browser_def)

lemma pool_inv_cong:
  "browser t = browser t' \<Longrightarrow> browserLaunchPromise t = browserLaunchPromise t'
   \<Longrightarrow> launches t = launches t' \<Longrightarrow> calls t = calls t' \<Longrightarrow> pool_inv t = pool_inv t'"
  by (simp add: pool_inv_def inv_pending_def inv_launcher_def inv_unique_def inv_marker_def
      inv_sharing_def inv_browser_def)

lemma inv_launches_upd:
  assumes i: "pool_inv s" and x: "x \<noteq> Pending"
  shows "pool_inv (s\<lparr>launches := (launches s)[p := x]\<rparr>)"
proof -
  let ?t = "s\<lparr>launches := (launches s)[p := x]\<rparr>"
  have old: "launches s ! p' = Pending"
    if "p' < length (launches s)" "(launches s)[p := x] ! p' = Pending" for p'
    using that x by (cases "p' = p") auto
  have 1: "inv_pending ?t"
    unfolding inv_pending_def
  proof (intro allI impI)
    fix p'
    assume "p' < length (launches ?t)" "launches ?t ! p' = Pending"
    then have "p' < length (launches s)" "launches s ! p' = Pending"
      using old [of p'] by simp_all
    with i show "browserLaunchPromise ?t = Some p'"
      by (auto simp: pool_inv_def inv_pending_def)
  qed
  have 2: "inv_launcher ?t = inv_launcher s" by (simp add: inv_launcher_def)
  have 3: "inv_unique ?t = inv_unique s" by (simp add: inv_unique_def)
  have 4: "inv_marker ?t = inv_marker s" by (simp add: inv_marker_def)
  have 5: "inv_sharing ?t = inv_sharing s" by (simp add: inv_sharing_def)
  have 6: "inv_browser ?t = inv_browser s" by (simp add: inv_browser_def)
  show ?thesis using i 1 unfolding pool_inv_def 2 3 4 5 6 by blast
qed

lemma inv_launch_settled: "pool_inv s \<Longrightarrow> pool_inv (launch_settled p ok s)"
proof -
  assume i: "pool_inv s"
  have a: "pool_inv (s\<lparr>launches := (launches s)[p := Fulfilled]\<rparr>)"
    by (rule inv_launches_upd [OF i]) simp
  have b: "pool_inv (s\<lparr>launches := (launches s)[p := LaunchFailed]\<rparr>)"
    by (rule inv_launches_upd [OF i]) simp
  from a have "pool_inv (s\<lparr>launches := (launches s)[p := Fulfilled],
                  isConnected := (isConnected s)(p := True)\<rparr>)"
    by (simp only: inv_isConnected_eq)
  with b i show ?thesis by (simp add: launch_settled_def)
qed

lemma inv_settle_call:
  assumes i: "pool_inv s" and c: "c < length (calls s)" and sh: "calls s ! c = Sharing p"
    and nl: "\<And>q. st \<noteq> Launching q" and ns: "\<And>q. st \<noteq> Sharing q"
  shows "pool_inv (s\<lparr>calls := (calls s)[c := st]\<rparr>)"
proof -
  let ?t = "s\<lparr>calls := (calls s)[c := st]\<rparr>"
  have oldL: "calls s ! c' = Launching q"
    if "c' < length (calls s)" "(calls s)[c := st] ! c' = Launching q" for c' q
    using that c nl [of q] by (cases "c' = c") auto
  have oldS: "calls s ! c' = Sharing q"
    if "c' < length (calls s)" "(calls s)[c := st] ! c' = Sharing q" for c' q
    using that c ns [of q] by (cases "c' = c") auto
  have 1: "inv_pending ?t = inv_pending s" by (simp add: inv_pending_def)
  have 2: "inv_launcher ?t"
    unfolding inv_launcher_def
  proof (intro allI impI)
    fix c' q
    assume "c' < length (calls ?t)" "calls ?t ! c' = Launching q"
    then have "c' < length (calls s)" "calls s ! c' = Launching q"
      using oldL [of c' q] by simp_all
    with i show "browserLaunchPromise ?t = Some q"
      by (auto simp: pool_inv_def inv_launcher_def)
  qed
  have 3: "inv_unique ?t"
    unfolding inv_unique_def
  proof (intro allI impI)
    fix c1 c2 q1 q2
    assume "c1 < length (calls ?t)" "c2 < length (calls ?t)"
      "calls ?t ! c1 = Launching q1" "calls ?t ! c2 = Launching q2"
    then have "c1 < length (calls s)" "c2 < length (calls s)"
      "calls s ! c1 = Launching q1" "calls s ! c2 = Launching q2"
      using oldL [of c1 q1] oldL [of c2 q2] by simp_all
    with i show "c1 = c2" unfolding pool_inv_def inv_unique_def by blast
  qed
  have 4: "inv_marker ?t"
    unfolding inv_marker_def
  proof (intro allI impI)
    fix q
    assume "browserLaunchPromise ?t = Some q"
    then have m: "browserLaunchPromise s = Some q" by simp
    with i obtain c0 where c0: "c0 < length (calls s)" "calls s ! c0 = Launching q"
      and b: "browser s = None" "q < length (launches s)"
      by (auto simp: pool_inv_def inv_marker_def)
    from c0 sh have "c0 \<noteq> c" by auto
    with c0 have "c0 < length (calls ?t) \<and> calls ?t ! c0 = Launching q" by simp
    with b show "browser ?t = None \<and> q < length (launches ?t)
        \<and> (\<exists>c < length (calls ?t). calls ?t ! c = Launching q)"
      by auto
  qed
  have 5: "inv_sharing ?t"
    unfolding inv_sharing_def
  proof (intro allI impI)
    fix c' q
    assume "c' < length (calls ?t)" "calls ?t ! c' = Sharing q"
    then have "c' < length (calls s)" "calls s ! c' = Sharing q"
      using oldS [of c' q] by simp_all
    with i show "q < length (launches ?t)"
      by (auto simp: pool_inv_def inv_sharing_def)
  qed
  have 6: "inv_browser ?t = inv_browser s" by (simp add: inv_browser_def)
  show ?thesis using i 2 3 4 5 unfolding pool_inv_def 1 6 by blast
qed

lemma inv_sharer_resumes: "pool_inv s \<Longrightarrow> pool_inv (sharer_resumes c s)"
proof -
  assume i: "pool_inv s"
  show ?thesis
  proof (cases "c < length (calls s)")
    case False
    with i show ?thesis by (simp add: sharer_resumes_def)
  next
    case c: True
    show ?thesis
    proof (cases "calls s ! c")
      case (Sharing p)
      have a: "pool_inv (s\<lparr>calls := (calls s)[c := Resolved p]\<rparr>)"
        by (rule inv_settle_call [OF i c Sharing]) simp_all
      have b: "pool_inv (s\<lparr>calls := (calls s)[c := Rejected]\<rparr>)"
        by (rule inv_settle_call [OF i c Sharing]) simp_all
      from a b i c Sharing show ?thesis
        by (simp add: sharer_resumes_def split: launch_state.splits)
    qed (use i c in \<open>simp_all add: sharer_resumes_def\<close>)
  qed
qed

lemma inv_clear_marker:
  assumes i: "pool_inv s" and c: "c < length (calls s)" and la: "calls s ! c = Launching p"
    and settled: "launches s ! p \<noteq> Pending"
    and nl: "\<And>q. st \<noteq> Launching q" and ns: "\<And>q. st \<noteq> Sharing q"
    and b: "\<And>x. b = Some x \<Longrightarrow> x < length (launches s)"
  shows "pool_inv (s\<lparr>browser := b, browserLaunchPromise := None, calls := (calls s)[c := st]\<rparr>)"
proof -
  let ?t = "s\<lparr>browser := b, browserLaunchPromise := None, calls := (calls s)[c := st]\<rparr>"
  from i c la have m: "browserLaunchPromise s = Some p"
    by (auto simp: pool_inv_def inv_launcher_def)
  have nop: "launches s ! p' \<noteq> Pending" if "p' < length (launches s)" for p'
  proof
    assume "launches s ! p' = Pending"
    with i that have "browserLaunchPromise s = Some p'"
      by (auto simp: pool_inv_def inv_pending_def)
    with m have "p' = p" by simp
    with settled \<open>launches s ! p' = Pending\<close> show False by simp
  qed
  have only: "c' = c" if "c' < length (calls s)" "calls s ! c' = Launching q" for c' q
    using i that c la unfolding pool_inv_def inv_unique_def by blast
  have nol: "(calls s)[c := st] ! c' \<noteq> Launching q" if "c' < length (calls s)" for c' q
  proof (cases "c' = c")
    case True
    with c nl [of q] show ?thesis by simp
  next
    case False
    with only [OF that, of q] show ?thesis by auto
  qed
  have oldS: "calls s ! c' = Sharing q"
    if "c' < length (calls s)" "(calls s)[c := st] ! c' = Sharing q" for c' q
    using that c ns [of q] by (cases "c' = c") auto
  have 1: "inv_pending ?t" using nop by (simp add: inv_pending_def)
  have 2: "inv_launcher ?t" using nol by (simp add: inv_launcher_def)
  have 3: "inv_unique ?t" using nol by (simp add: inv_unique_def)
  have 4: "inv_marker ?t" by (simp add: inv_marker_def)
  have 5: "inv_sharing ?t"
    unfolding inv_sharing_def
  proof (intro allI impI)
    fix c' q
    assume "c' < length (calls ?t)" "calls ?t ! c' = Sharing q"
    then have "c' < length (calls s)" "calls s ! c' = Sharing q"
      using oldS [of c' q] by simp_all
    with i show "q < length (launches ?t)"
      by (auto simp: pool_inv_def inv_sharing_def)
  qed
  have 6: "inv_browser ?t" using b by (simp add: inv_browser_def)
  show ?thesis unfolding pool_inv_def using 1 2 3 4 5 6 by blast
qed

lemma inv_launcher_resumes: "pool_inv s \<Longrightarrow> pool_inv (launcher_resumes c s)"
proof -
  assume i: "pool_inv s"
  show ?thesis
  proof (cases "c < length (calls s)")
    case False
    with i show ?thesis by (simp add: launcher_resumes_def)
  next
    case c: True
    show ?thesis
    proof (cases "calls s ! c")
      case (Launching p)
      from i c Launching have m: "browserLaunchPromise s = Some p"
        by (auto simp: pool_inv_def inv_launcher_def)
      with i have pl: "p < length (launches s)" and bn: "browser s = None"
        by (auto simp: pool_inv_def inv_marker_def)
      show ?thesis
      proof (cases "launches s ! p")
        case Pending
        with i c Launching pl show ?thesis by (simp add: launcher_resumes_def)
      next
        case Fulfilled
        have "pool_inv (s\<lparr>browser := Some p, browserLaunchPromise := None,
                 calls := (calls s)[c := Resolved p]\<rparr>)"
          by (rule inv_clear_marker [OF i c Launching]) (simp_all add: Fulfilled pl)
        then have "pool_inv (s\<lparr>browser := Some p, contextCount := 0,
                 browserLaunchPromise := None, calls := (calls s)[c := Resolved p]\<rparr>)"
          by (subst pool_inv_cong) simp_all
        with c Launching pl Fulfilled show ?thesis by (simp add: launcher_resumes_def)
      next
        case LaunchFailed
        have "pool_inv (s\<lparr>browser := None, browserLaunchPromise := None,
                 calls := (calls s)[c := Rejected]\<rparr>)"
          by (rule inv_clear_marker [OF i c Launching]) (simp_all add: LaunchFailed)
        moreover have "s\<lparr>browser := None\<rparr> = s" using bn by simp
        ultimately show ?thesis
          using c Launching pl LaunchFailed by (simp add: launcher_resumes_def)
      qed
    qed (use i c in \<open>simp_all add: launcher_resumes_def\<close>)
  qed
qed

lemma inv_context_issued: "pool_inv s \<Longrightarrow> pool_inv (context_issued c s)"
  by (simp add: context_issued_def inv_contextCount_eq split: call_state.splits)

lemma inv_step: "pool_inv s \<Longrightarrow> pool_inv (step e s)"
  by (cases e)
    (simp_all add: inv_getBrowser_called inv_close_settled inv_launch_settled
      inv_launcher_resumes inv_sharer_resumes inv_context_issued inv_isConnected_eq)

lemma inv_fold: "pool_inv s \<Longrightarrow> pool_inv (fold step es s)"
  by (induction es arbitrary: s) (simp_all add: inv_step)

lemma inv_run: "pool_inv (run es initial_pool)"
  unfolding run_def by (rule inv_fold) (rule inv_initial)

subsection \<open>One launch in flight\<close>

lemma run_Nil: "run [] s = s" by (simp add: run_def)
lemma run_Cons: "run (e # es) s = run es (step e s)" by (simp add: run_def)
lemma run_append: "run (es @ fs) s = run fs (run es s)" by (simp add: run_def)

lemma inv_run_from: "pool_inv s \<Longrightarrow> pool_inv (run es s)"
  unfolding run_def by (rule inv_fold)

lemma in_flight_marker:
  assumes i: "pool_inv s" and p: "p \<in> set (in_flight s)"
  shows "browserLaunchPromise s = Some p \<and> browser s = None"
proof -
  from p have "p < length (launches s)" "launches s ! p = Pending"
    by (auto simp: in_flight_def)
  with i have "browserLaunchPromise s = Some p" by (auto simp: pool_inv_def inv_pending_def)
  with i show ?thesis by (auto simp: pool_inv_def inv_marker_def)
qed

lemma in_flight_le_1: assumes i: "pool_inv s" shows "length (in_flight s) \<le> 1"
proof -
  have d: "distinct (in_flight s)" by (simp add: in_flight_def)
  have "set (in_flight s) \<subseteq> {p. browserLaunchPromise s = Some p}"
    using in_flight_marker [OF i] by blast
  also have "\<dots> \<subseteq> {the (browserLaunchPromise s)}" by auto
  finally have "card (set (in_flight s)) \<le> card {the (browserLaunchPromise s)}"
    by (intro card_mono) auto
  with d show ?thesis by (simp add: distinct_card)
qed

lemma getBrowser_shares:
  assumes "browserLaunchPromise s = Some p" "browser s = None"
  shows "getBrowser_called s = s\<lparr>calls := calls s @ [Sharing p]\<rparr>"
  using assms by (simp add: getBrowser_called_def launch_or_share_def)

lemma many_share:
  assumes "browserLaunchPromise s = Some p" "browser s = None"
  shows "run (replicate n GetBrowser) s = s\<lparr>calls := calls s @ replicate n (Sharing p)\<rparr>"
proof (induction n)
  case 0
  show ?case by (simp add: run_def)
next
  case (Suc n)
  let ?t = "s\<lparr>calls := calls s @ replicate n (Sharing p)\<rparr>"
  have "replicate (Suc n) GetBrowser = replicate n GetBrowser @ [GetBrowser]"
    by (simp add: replicate_append_same)
  then have "run (replicate (Suc n) GetBrowser) s
      = step GetBrowser (run (replicate n GetBrowser) s)"
    by (simp only: run_append run_Cons run_Nil)
  also have "\<dots> = getBrowser_called ?t" by (simp add: Suc.IH)
  also have "\<dots> = ?t\<lparr>calls := calls ?t @ [Sharing p]\<rparr>"
    by (rule getBrowser_shares) (simp_all add: assms)
  also have "\<dots> = s\<lparr>calls := calls s @ replicate (Suc n) (Sharing p)\<rparr>"
    by (simp add: replicate_append_same)
  finally show ?case .
qed

lemma sharer_resolves:
  assumes i: "pool_inv s" and c: "c < length (calls s)" and sh: "calls s ! c = Sharing p"
  shows "launches s ! p = Fulfilled \<Longrightarrow>
           sharer_resumes c s = s\<lparr>calls := (calls s)[c := Resolved p]\<rparr>"
    and "launches s ! p = LaunchFailed \<Longrightarrow>
           sharer_resumes c s = s\<lparr>calls := (calls s)[c := Rejected]\<rparr>"
proof -
  from i c sh have "p < length (launches s)" by (auto simp: pool_inv_def inv_sharing_def)
  then show "launches s ! p = Fulfilled \<Longrightarrow>
           sharer_resumes c s = s\<lparr>calls := (calls s)[c := Resolved p]\<rparr>"
    and "launches s ! p = LaunchFailed \<Longrightarrow>
           sharer_resumes c s = s\<lparr>calls := (calls s)[c := Rejected]\<rparr>"
    using c sh by (simp_all add: sharer_resumes_def)
qed

lemma launcher_resolves:
  assumes i: "pool_inv s" and c: "c < length (calls s)" and la: "calls s ! c = Launching p"
  shows "launches s ! p = Fulfilled \<Longrightarrow>
           launcher_resumes c s = s\<lparr>browser := Some p, contextCount := 0,
              browserLaunchPromise := None, calls := (calls s)[c := Resolved p]\<rparr>"
    and "launches s ! p = LaunchFailed \<Longrightarrow>
           launcher_resumes c s = s\<lparr>browserLaunchPromise := None,
              calls := (calls s)[c := Rejected]\<rparr>"
proof -
  from i c la have "browserLaunchPromise s = Some p" by (auto simp: pool_inv_def inv_launcher_def)
  with i have "p < length (launches s)" by (auto simp: pool_inv_def inv_marker_def)
  then show "launches s ! p = Fulfilled \<Longrightarrow>
           launcher_resumes c s = s\<lparr>browser := Some p, contextCount := 0,
              browserLaunchPromise := None, calls := (calls s)[c := Resolved p]\<rparr>"
    and "launches s ! p = LaunchFailed \<Longrightarrow>
           launcher_resumes c s = s\<lparr>browserLaunchPromise := None,
              calls := (calls s)[c := Rejected]\<rparr>"
    using c la by (simp_all add: launcher_resumes_def)
qed

lemma marker_has_launcher:
  "pool_inv s \<Longrightarrow> browserLaunchPromise s = Some p \<Longrightarrow>
     \<exists>c < length (calls s). calls s ! c = Launching p"
  by (auto simp: pool_inv_def inv_marker_def)

lemma launch_or_share_count: "contextCount (snd (launch_or_share s)) = contextCount s"
  by (simp add: launch_or_share_def split: option.splits)

lemma count_getBrowser_called: "contextCount (getBrowser_called s) = contextCount s"
  using launch_or_share_count [of s]
  by (cases "launch_or_share s") (simp add: getBrowser_called_def split: option.splits)

lemma count_close_settled: "contextCount (close_settled c s) = contextCount s"
  using launch_or_share_count [of "s\<lparr>browser := None\<rparr>"]
  by (cases "launch_or_share (s\<lparr>browser := None\<rparr>)") (simp add: close_settled_def)

lemma count_launch_settled: "contextCount (launch_settled p ok s) = contextCount s"
  by (simp add: launch_settled_def)

lemma count_sharer_resumes: "contextCount (sharer_resumes c s) = contextCount s"
  by (simp add: sharer_resumes_def split: call_state.splits launch_state.splits)

lemma count_context_issued: "contextCount (context_issued c s) \<noteq> 0 \<or> contextCount s = 0"
  by (auto simp: context_issued_def split: call_state.splits)

lemma count_launcher_resumes:
  "contextCount (launcher_resumes c s) \<noteq> contextCount s \<Longrightarrow>
     \<exists>p. c < length (calls s) \<and> calls s ! c = Launching p \<and> p < length (launches s)
        \<and> launches s ! p = Fulfilled"
  by (auto simp: launcher_resumes_def split: call_state.splits launch_state.splits if_splits)

lemma reset_only_on_launch:
  assumes "contextCount (step e s) = 0" "contextCount s \<noteq> 0"
  shows "\<exists>c p. e = LauncherResumes c \<and> c < length (calls s) \<and> calls s ! c = Launching p
           \<and> p < length (launches s) \<and> launches s ! p = Fulfilled"
proof (cases e)
  case GetBrowser
  with assms show ?thesis by (simp add: count_getBrowser_called)
next
  case (CloseSettled c ok)
  with assms show ?thesis by (simp add: count_close_settled)
next
  case (LaunchSettled p ok)
  with assms show ?thesis by (simp add: count_launch_settled)
next
  case (LauncherResumes c)
  with assms count_launcher_resumes [of c s] show ?thesis by auto
next
  case (SharerResumes c)
  with assms show ?thesis by (simp add: count_sharer_resumes)
next
  case (ContextIssued c)
  with assms count_context_issued [of c s] show ?thesis by simp
next
  case (Disconnected b)
  with assms show ?thesis by simp
qed

subsection \<open>Rotation\<close>

lemma getBrowser_alone_healthy:
  assumes "browser s = Some b" "isConnected s b" "contextCount s < MAX_CONTEXTS_PER_BROWSER"
  shows "getBrowser_alone close_ok launch_ok s = s\<lparr>calls := calls s @ [Resolved b]\<rparr>"
  using assms
  by (simp add: getBrowser_alone_def run_def getBrowser_called_def close_settled_def
      launch_settled_def launcher_resumes_def)

lemma getContext_alone_healthy:
  assumes "browser s = Some b" "isConnected s b" "contextCount s < MAX_CONTEXTS_PER_BROWSER"
  shows "getContext_alone close_ok launch_ok s =
           s\<lparr>calls := calls s @ [Resolved b], contextCount := contextCount s + 1\<rparr>"
  by (simp add: getContext_alone_def getBrowser_alone_healthy [OF assms] run_def
      context_issued_def)

lemma issue_contexts:
  assumes "browser s = Some b" "isConnected s b"
    and "contextCount s + k \<le> MAX_CONTEXTS_PER_BROWSER"
  shows "(getContext_alone close_ok launch_ok ^^ k) s =
           s\<lparr>calls := calls s @ replicate k (Resolved b), contextCount := contextCount s + k\<rparr>"
  using assms(3)
proof (induction k)
  case 0
  show ?case by simp
next
  case (Suc k)
  let ?t = "s\<lparr>calls := calls s @ replicate k (Resolved b), contextCount := contextCount s + k\<rparr>"
  from Suc.prems have "contextCount s + k \<le> MAX_CONTEXTS_PER_BROWSER" by simp
  then have IH: "(getContext_alone close_ok launch_ok ^^ k) s = ?t" by (rule Suc.IH)
  have lt: "contextCount ?t < MAX_CONTEXTS_PER_BROWSER" using Suc.prems by simp
  have "(getContext_alone close_ok launch_ok ^^ Suc k) s = getContext_alone close_ok launch_ok ?t"
    by (simp add: IH)
  also have "\<dots> = ?t\<lparr>calls := calls ?t @ [Resolved b], contextCount := contextCount ?t + 1\<rparr>"
    by (rule getContext_alone_healthy [OF _ _ lt]) (simp_all add: assms)
  also have "\<dots> = s\<lparr>calls := calls s @ replicate (Suc k) (Resolved b),
                      contextCount := contextCount s + Suc k\<rparr>"
    by (simp add: replicate_append_same)
  finally show ?case .
qed

lemma getBrowser_alone_rotates:
  assumes i: "pool_inv s" and b: "browser s = Some b"
    and stale: "\<not> isConnected s b \<or> contextCount s \<ge> MAX_CONTEXTS_PER_BROWSER"
  shows "browser (getBrowser_alone close_ok True s) = Some (length (launches s))"
    and "calls (getBrowser_alone close_ok True s) = calls s @ [Resolved (length (launches s))]"
    and "contextCount (getBrowser_alone close_ok True s) = 0"
    and "closeCalls (getBrowser_alone close_ok True s) = closeCalls s @ [b]"
    and "launches (getBrowser_alone close_ok True s) = launches s @ [Fulfilled]"
    and "browserLaunchPromise (getBrowser_alone close_ok True s) = None"
    and "isConnected (getBrowser_alone close_ok True s) (length (launches s))"
    and "b \<noteq> length (launches s)"
proof -
  have m: "browserLaunchPromise s = None"
  proof (cases "browserLaunchPromise s")
    case (Some p)
    with i have "browser s = None" by (auto simp: pool_inv_def inv_marker_def)
    with b show ?thesis by simp
  qed simp
  from stale have c: "\<not> (isConnected s b \<and> contextCount s < MAX_CONTEXTS_PER_BROWSER)" by auto
  have 1: "getBrowser_called s = s\<lparr>closeCalls := closeCalls s @ [b], calls := calls s @ [Closing]\<rparr>"
    using b c by (simp add: getBrowser_called_def)
  let ?n = "length (launches s)"
  let ?c = "length (calls s)"
  let ?s1 = "s\<lparr>closeCalls := closeCalls s @ [b], calls := calls s @ [Closing]\<rparr>"
  let ?s2 = "s\<lparr>closeCalls := closeCalls s @ [b], browser := None,
      browserLaunchPromise := Some ?n, launches := launches s @ [Pending],
      calls := calls s @ [Launching ?n]\<rparr>"
  have 2: "close_settled ?c ?s1 = ?s2"
    using m by (simp add: close_settled_def launch_or_share_def)
  let ?s3 = "s\<lparr>closeCalls := closeCalls s @ [b], browser := None,
      browserLaunchPromise := Some ?n, launches := launches s @ [Fulfilled],
      calls := calls s @ [Launching ?n], isConnected := (isConnected s)(?n := True)\<rparr>"
  have 3: "launch_settled ?n True ?s2 = ?s3"
    by (simp add: launch_settled_def)
  have e: "getBrowser_alone close_ok True s = launcher_resumes ?c ?s3"
    by (simp add: getBrowser_alone_def run_def 1 2 3)
  show "browser (getBrowser_alone close_ok True s) = Some ?n"
    and "calls (getBrowser_alone close_ok True s) = calls s @ [Resolved ?n]"
    and "contextCount (getBrowser_alone close_ok True s) = 0"
    and "closeCalls (getBrowser_alone close_ok True s) = closeCalls s @ [b]"
    and "launches (getBrowser_alone close_ok True s) = launches s @ [Fulfilled]"
    and "browserLaunchPromise (getBrowser_alone close_ok True s) = None"
    and "isConnected (getBrowser_alone close_ok True s) ?n"
    unfolding e by (simp_all add: launcher_resumes_def)
  from i b show "b \<noteq> ?n" by (auto simp: pool_inv_def inv_browser_def)
qed

lemma inv_getContext_alone: "pool_inv s \<Longrightarrow> pool_inv (getContext_alone a b s)"
  unfolding getContext_alone_def getBrowser_alone_def by (intro inv_run_from)

lemma inv_funpow: "pool_inv s \<Longrightarrow> pool_inv ((getContext_alone a b ^^ k) s)"
  by (induction k) (simp_all add: inv_getContext_alone)

lemma three_callers_eval:
  "calls three_callers = [Launching 0, Sharing 0, Sharing 0]"
  "launches three_callers = [Pending]"
  "browserLaunchPromise three_callers = Some 0"
  "in_flight three_callers = [0]"
  by (simp_all add: three_callers_def run_def initial_pool_def getBrowser_called_def
      launch_or_share_def in_flight_def)

lemma fresh_browser_eval:
  "browser fresh_browser = Some 0" "isConnected fresh_browser 0"
  "contextCount fresh_browser = 0" "calls fresh_browser = [Resolved 0]"
  "launches fresh_browser = [Fulfilled]" "closeCalls fresh_browser = []"
  by (simp_all add: fresh_browser_def run_def initial_pool_def getBrowser_called_def
      launch_or_share_def launch_settled_def launcher_resumes_def)

text \<open>
  Claim C4, for every state \<open>s\<close> the pool can reach from its initial state, by calls of
  \<open>getBrowser\<close> and \<open>getContext\<close> that interleave at their \<open>await\<close>s in any way, launches
  and closes that succeed or fail, and browsers that disconnect. At most one launch is
  in flight, and it is the one whose promise is stored. While the promise of the launch
  \<open>p\<close> is stored, any number of new calls of \<open>getBrowser\<close> all return the promise of
  \<open>p\<close>, and no launch is started for them. Once \<open>p\<close> has
  succeeded, a call that shares it resolves to the browser of \<open>p\<close>, and so does the call
  that started it, which stores the browser, resets the context counter to 0 and
  clears the stored promise; once \<open>p\<close> has failed, both are rejected and the stored
  promise is cleared as well. As long as a promise is stored, the call that will clear
  it exists. And the counter goes to 0 from another value only in the step in which
  the call that started a launch resumes after the launch has succeeded.
\<close>

theorem single_flight:
  assumes "s = run es initial_pool"
  shows
    "length (in_flight s) \<le> 1
     \<and> (\<forall>p \<in> set (in_flight s). browserLaunchPromise s = Some p)
     \<and> (\<forall>p n. browserLaunchPromise s = Some p \<longrightarrow>
          run (replicate n GetBrowser) s = s\<lparr>calls := calls s @ replicate n (Sharing p)\<rparr>)
     \<and> (\<forall>c < length (calls s). \<forall>p. calls s ! c = Sharing p \<and> launches s ! p = Fulfilled \<longrightarrow>
          step (SharerResumes c) s = s\<lparr>calls := (calls s)[c := Resolved p]\<rparr>)
     \<and> (\<forall>c < length (calls s). \<forall>p. calls s ! c = Launching p \<and> launches s ! p = Fulfilled \<longrightarrow>
          step (LauncherResumes c) s =
            s\<lparr>browser := Some p, contextCount := 0, browserLaunchPromise := None,
              calls := (calls s)[c := Resolved p]\<rparr>)
     \<and> (\<forall>c < length (calls s). \<forall>p. calls s ! c = Sharing p \<and> launches s ! p = LaunchFailed \<longrightarrow>
          step (SharerResumes c) s = s\<lparr>calls := (calls s)[c := Rejected]\<rparr>)
     \<and> (\<forall>c < length (calls s). \<forall>p. calls s ! c = Launching p \<and> launches s ! p = LaunchFailed \<longrightarrow>
          step (LauncherResumes c) s =
            s\<lparr>browserLaunchPromise := None, calls := (calls s)[c := Rejected]\<rparr>)
     \<and> (\<forall>p. browserLaunchPromise s = Some p \<longrightarrow>
          browser s = None \<and> (\<exists>c < length (calls s). calls s ! c = Launching p))
     \<and> (\<forall>e. contextCount (step e s) = 0 \<and> contextCount s \<noteq> 0 \<longrightarrow>
          (\<exists>c p. e = LauncherResumes c \<and> c < length (calls s) \<and> calls s ! c = Launching p
             \<and> launches s ! p = Fulfilled))"
proof -
  have i: "pool_inv s" unfolding assms by (rule inv_run)
  have 1: "length (in_flight s) \<le> 1" by (rule in_flight_le_1 [OF i])
  have 2: "\<forall>p \<in> set (in_flight s). browserLaunchPromise s = Some p"
    using in_flight_marker [OF i] by blast
  have 7: "\<forall>p. browserLaunchPromise s = Some p \<longrightarrow>
          browser s = None \<and> (\<exists>c < length (calls s). calls s ! c = Launching p)"
    using i by (simp add: pool_inv_def inv_marker_def)
  have 9: "\<forall>p n. browserLaunchPromise s = Some p \<longrightarrow>
          run (replicate n GetBrowser) s = s\<lparr>calls := calls s @ replicate n (Sharing p)\<rparr>"
    using 7 many_share by blast
  have 3: "\<forall>c < length (calls s). \<forall>p. calls s ! c = Sharing p \<and> launches s ! p = Fulfilled \<longrightarrow>
          step (SharerResumes c) s = s\<lparr>calls := (calls s)[c := Resolved p]\<rparr>"
    using sharer_resolves(1) [OF i] by simp
  have 4: "\<forall>c < length (calls s). \<forall>p. calls s ! c = Launching p \<and> launches s ! p = Fulfilled \<longrightarrow>
          step (LauncherResumes c) s =
            s\<lparr>browser := Some p, contextCount := 0, browserLaunchPromise := None,
              calls := (calls s)[c := Resolved p]\<rparr>"
    using launcher_resolves(1) [OF i] by simp
  have 5: "\<forall>c < length (calls s). \<forall>p. calls s ! c = Sharing p \<and> launches s ! p = LaunchFailed \<longrightarrow>
          step (SharerResumes c) s = s\<lparr>calls := (calls s)[c := Rejected]\<rparr>"
    using sharer_resolves(2) [OF i] by simp
  have 6: "\<forall>c < length (calls s). \<forall>p. calls s ! c = Launching p \<and> launches s ! p = LaunchFailed \<longrightarrow>
          step (LauncherResumes c) s =
            s\<lparr>browserLaunchPromise := None, calls := (calls s)[c := Rejected]\<rparr>"
    using launcher_resolves(2) [OF i] by simp
  have 8: "\<forall>e. contextCount (step e s) = 0 \<and> contextCount s \<noteq> 0 \<longrightarrow>
          (\<exists>c p. e = LauncherResumes c \<and> c < length (calls s) \<and> calls s ! c = Launching p
             \<and> launches s ! p = Fulfilled)"
    using reset_only_on_launch [of _ s] by blast
  show ?thesis using 1 2 9 3 4 5 6 7 8 by (intro conjI)
qed

theorem single_flight_witness:
  "in_flight three_callers = [0]
   \<and> calls three_callers = [Launching 0, Sharing 0, Sharing 0]
   \<and> run (replicate 2 GetBrowser) three_callers
       = three_callers\<lparr>calls := [Launching 0, Sharing 0, Sharing 0, Sharing 0, Sharing 0]\<rparr>
   \<and> launches (run (replicate 2 GetBrowser) three_callers) = [Pending]
   \<and> calls (run [LaunchSettled 0 True, LauncherResumes 0, SharerResumes 1, SharerResumes 2]
        three_callers) = [Resolved 0, Resolved 0, Resolved 0]
   \<and> launches (run [LaunchSettled 0 True, LauncherResumes 0, SharerResumes 1, SharerResumes 2]
        three_callers) = [Fulfilled]"
proof -
  have r: "three_callers = run [GetBrowser, GetBrowser, GetBrowser] initial_pool"
    by (simp add: three_callers_def)
  have "browserLaunchPromise three_callers = Some 0" by (simp add: three_callers_eval)
  with single_flight [OF r]
  have "run (replicate 2 GetBrowser) three_callers
       = three_callers\<lparr>calls := calls three_callers @ replicate 2 (Sharing 0)\<rparr>"
    by blast
  then have a: "run (replicate 2 GetBrowser) three_callers
       = three_callers\<lparr>calls := [Launching 0, Sharing 0, Sharing 0, Sharing 0, Sharing 0]\<rparr>"
    by (simp add: three_callers_eval numeral_2_eq_2)
  have b: "calls (run [LaunchSettled 0 True, LauncherResumes 0, SharerResumes 1, SharerResumes 2]
        three_callers) = [Resolved 0, Resolved 0, Resolved 0]
     \<and> launches (run [LaunchSettled 0 True, LauncherResumes 0, SharerResumes 1, SharerResumes 2]
        three_callers) = [Fulfilled]"
    by (simp add: three_callers_def run_def initial_pool_def getBrowser_called_def
        launch_or_share_def launch_settled_def launcher_resumes_def sharer_resumes_def)
  show ?thesis using a b by (simp add: three_callers_eval)
qed

text \<open>
  Claim C9, for a state \<open>s\<close> the pool can reach in which it holds a connected browser
  \<open>b\<close>, and for calls that run one after the other. While the context counter is below
  50, \<open>getBrowser\<close> resolves to \<open>b\<close> and changes nothing else. When the counter is 0 and
  50 contexts are issued by \<open>getContext\<close>, the browser is still \<open>b\<close> and the counter is 50;
  the next call of \<open>getBrowser\<close> calls \<open>close()\<close> on \<open>b\<close> and, whether \<open>close()\<close> succeeds
  or fails, starts a launch; when the launch succeeds the call resolves to the browser
  of that launch, which is not \<open>b\<close>, and the counter is 0.
\<close>

theorem rotation_after_max_contexts:
  assumes "s = run es initial_pool" and "browser s = Some b" and "isConnected s b"
  shows
    "(contextCount s < MAX_CONTEXTS_PER_BROWSER \<longrightarrow>
        getBrowser_alone close_ok launch_ok s = s\<lparr>calls := calls s @ [Resolved b]\<rparr>)
     \<and> (contextCount s = 0 \<longrightarrow>
        (let s50 = (getContext_alone close_ok launch_ok ^^ 50) s;
             s' = getBrowser_alone close_ok' True s50
         in contextCount s50 = 50 \<and> browser s50 = Some b \<and> launches s50 = launches s
            \<and> closeCalls s50 = closeCalls s
            \<and> closeCalls s' = closeCalls s @ [b]
            \<and> launches s' = launches s @ [Fulfilled]
            \<and> calls s' = calls s50 @ [Resolved (length (launches s))]
            \<and> browser s' = Some (length (launches s))
            \<and> isConnected s' (length (launches s))
            \<and> b \<noteq> length (launches s)
            \<and> contextCount s' = 0))"
proof -
  have i: "pool_inv s" unfolding assms(1) by (rule inv_run)
  have 1: "contextCount s < MAX_CONTEXTS_PER_BROWSER \<Longrightarrow>
        getBrowser_alone close_ok launch_ok s = s\<lparr>calls := calls s @ [Resolved b]\<rparr>"
    by (rule getBrowser_alone_healthy [OF assms(2,3)])
  have 2: "let s50 = (getContext_alone close_ok launch_ok ^^ 50) s;
             s' = getBrowser_alone close_ok' True s50
         in contextCount s50 = 50 \<and> browser s50 = Some b \<and> launches s50 = launches s
            \<and> closeCalls s50 = closeCalls s
            \<and> closeCalls s' = closeCalls s @ [b]
            \<and> launches s' = launches s @ [Fulfilled]
            \<and> calls s' = calls s50 @ [Resolved (length (launches s))]
            \<and> browser s' = Some (length (launches s))
            \<and> isConnected s' (length (launches s))
            \<and> b \<noteq> length (launches s)
            \<and> contextCount s' = 0"
    if z: "contextCount s = 0"
  proof -
    let ?s50 = "(getContext_alone close_ok launch_ok ^^ 50) s"
    have e: "?s50 = s\<lparr>calls := calls s @ replicate 50 (Resolved b),
                        contextCount := contextCount s + 50\<rparr>"
      by (rule issue_contexts [OF assms(2,3)]) (simp add: z MAX_CONTEXTS_PER_BROWSER_def)
    have f: "contextCount ?s50 = 50" "browser ?s50 = Some b" "launches ?s50 = launches s"
      "closeCalls ?s50 = closeCalls s"
      unfolding e by (simp_all add: z assms(2))
    have i50: "pool_inv ?s50" by (rule inv_funpow [OF i])
    have stale: "\<not> isConnected ?s50 b \<or> contextCount ?s50 \<ge> MAX_CONTEXTS_PER_BROWSER"
      by (simp add: f MAX_CONTEXTS_PER_BROWSER_def)
    note r = getBrowser_alone_rotates [OF i50 f(2) stale]
    show ?thesis
      unfolding Let_def using f r by (simp add: f(3,4))
  qed
  show ?thesis using 1 2 by blast
qed

theorem rotation_after_max_contexts_witness:
  "browser fresh_browser = Some 0 \<and> isConnected fresh_browser 0
   \<and> contextCount fresh_browser = 0
   \<and> getBrowser_alone True True fresh_browser = fresh_browser\<lparr>calls := [Resolved 0, Resolved 0]\<rparr>
   \<and> contextCount ((getContext_alone True True ^^ 50) fresh_browser) = 50
   \<and> browser ((getContext_alone True True ^^ 50) fresh_browser) = Some 0
   \<and> browser (getBrowser_alone False True ((getContext_alone True True ^^ 50) fresh_browser))
       = Some 1
   \<and> closeCalls (getBrowser_alone False True ((getContext_alone True True ^^ 50) fresh_browser))
       = [0]
   \<and> contextCount (getBrowser_alone False True ((getContext_alone True True ^^ 50) fresh_browser))
       = 0"
proof -
  have r: "fresh_browser = run [GetBrowser, LaunchSettled 0 True, LauncherResumes 0] initial_pool"
    by (simp add: fresh_browser_def)
  from rotation_after_max_contexts
    [OF r fresh_browser_eval(1) fresh_browser_eval(2), of True True False]
  show ?thesis
    by (simp add: fresh_browser_eval Let_def MAX_CONTEXTS_PER_BROWSER_def)
qed

section \<open>The process reaper\<close>

lemma temp_profile_mentions: "references_temp_profile c \<Longrightarrow> mentions_playwright c"
proof -
  assume "references_temp_profile c"
  then obtain ps ss where "c = ps @ ''user-data-dir=/tmp/playwright'' @ ss"
    by (auto simp: references_temp_profile_def str_includes_iff)
  then have "c = (ps @ ''user-data-dir=/tmp/'') @ ''playwright'' @ ss" by simp
  then show ?thesis unfolding mentions_playwright_def str_includes_iff by blast
qed

text \<open>A process that \<open>isOrphanedChrome\<close> accepts has a command line with the name of the
  automation engine and, when the rounding is monotone, an elapsed time above the
  maximum age.\<close>

lemma isOrphanedChrome_only_if:
  assumes fl: "monotone_rounding fl" and o: "isOrphanedChrome fl cfg proc"
  shows "mentions_playwright (cmd proc) \<and> real (etime proc) * 1000 > maxProcessAgeMs cfg"
proof -
  have m: "mentions_playwright (cmd proc)"
  proof (rule ccontr)
    assume n: "\<not> mentions_playwright (cmd proc)"
    then have "\<not> references_temp_profile (cmd proc)" using temp_profile_mentions by blast
    with n o show False
      by (simp add: isOrphanedChrome_def mentions_playwright_def references_temp_profile_def)
  qed
  from o have gt: "fl (real (etime proc) / 60) > fl (maxProcessAgeMs cfg / 60000)"
    by (simp add: isOrphanedChrome_def Let_def split: if_splits)
  have "real (etime proc) / 60 > maxProcessAgeMs cfg / 60000"
  proof (rule ccontr)
    assume "\<not> real (etime proc) / 60 > maxProcessAgeMs cfg / 60000"
    then have "real (etime proc) / 60 \<le> maxProcessAgeMs cfg / 60000" by simp
    then have "fl (real (etime proc) / 60) \<le> fl (maxProcessAgeMs cfg / 60000)"
      using fl by (simp add: monotone_rounding_def mono_def)
    with gt show False by simp
  qed
  then have "real (etime proc) * 1000 > maxProcessAgeMs cfg" by (simp add: field_simps)
  with m show ?thesis by simp
qed

lemma gc_loop_only_if:
  assumes fl: "monotone_rounding fl"
  shows "set (gc_loop fl cfg myPid maxAge procs acc)
           \<subseteq> set acc \<union> pid ` {proc \<in> set procs. old_playwright_process cfg myPid proc}"
proof (induction procs arbitrary: acc)
  case Nil
  then show ?case by simp
next
  case (Cons proc rest)
  show ?case
  proof (cases "\<not> real (etime proc) < maxAge \<and> pid proc \<noteq> myPid \<and> isOrphanedChrome fl cfg proc")
    case True
    then have "old_playwright_process cfg myPid proc"
      using isOrphanedChrome_only_if [OF fl, of cfg proc] by (simp add: old_playwright_process_def)
    then show ?thesis using True Cons.IH [of "acc @ [pid proc]"] by auto
  next
    case False
    then have "gc_loop fl cfg myPid maxAge (proc # rest) acc = gc_loop fl cfg myPid maxAge rest acc"
      by auto
    then show ?thesis using Cons.IH [of acc] by auto
  qed
qed

text \<open>
  Claim C5, with the mark the code looks for. Every process that a sweep of \<open>runGC\<close>
  gives to \<open>killProcess\<close>, the only place where the sweep sends a signal, is a listed
  process whose pid differs from the reaper's own, whose elapsed time exceeds the
  configured maximum age, and whose command line contains the word \<open>playwright\<close>
  anywhere; a command line that references the temporary profile directory contains
  it. A pid whose listed command lines do not contain that word is left alone whatever
  its age, and the reaper's own pid is never given to \<open>killProcess\<close>. This holds for
  every monotone rounding of the quotients.
\<close>

theorem runGC_targets:
  assumes "monotone_rounding fl"
  shows
    "(\<forall>p \<in> set (signalled (runGC fl cfg myPid procs)).
        \<exists>proc \<in> set procs. pid proc = p \<and> pid proc \<noteq> myPid
          \<and> real (etime proc) * 1000 > maxProcessAgeMs cfg
          \<and> str_includes (cmd proc) ''playwright'')
     \<and> (\<forall>p. (\<forall>proc \<in> set procs. pid proc = p \<longrightarrow> \<not> str_includes (cmd proc) ''playwright'')
            \<longrightarrow> p \<notin> set (signalled (runGC fl cfg myPid procs)))
     \<and> myPid \<notin> set (signalled (runGC fl cfg myPid procs))
     \<and> killed (runGC fl cfg myPid procs) = length (signalled (runGC fl cfg myPid procs))
     \<and> checked (runGC fl cfg myPid procs) = length procs
     \<and> (\<forall>proc. references_temp_profile (cmd proc) \<longrightarrow> str_includes (cmd proc) ''playwright'')"
proof -
  have sub: "set (signalled (runGC fl cfg myPid procs))
           \<subseteq> pid ` {proc \<in> set procs. old_playwright_process cfg myPid proc}"
    using gc_loop_only_if [OF assms, of cfg myPid _ procs "[]"] by (simp add: runGC_def Let_def)
  have 1: "\<forall>p \<in> set (signalled (runGC fl cfg myPid procs)).
        \<exists>proc \<in> set procs. pid proc = p \<and> pid proc \<noteq> myPid
          \<and> real (etime proc) * 1000 > maxProcessAgeMs cfg
          \<and> str_includes (cmd proc) ''playwright''"
    using sub by (auto simp: old_playwright_process_def mentions_playwright_def)
  have 2: "\<forall>p. (\<forall>proc \<in> set procs. pid proc = p \<longrightarrow> \<not> str_includes (cmd proc) ''playwright'')
            \<longrightarrow> p \<notin> set (signalled (runGC fl cfg myPid procs))"
    using 1 by blast
  have 3: "myPid \<notin> set (signalled (runGC fl cfg myPid procs))"
    using 1 by blast
  have 4: "killed (runGC fl cfg myPid procs) = length (signalled (runGC fl cfg myPid procs))"
    "checked (runGC fl cfg myPid procs) = length procs"
    by (simp_all add: runGC_def Let_def)
  have 5: "\<forall>proc. references_temp_profile (cmd proc) \<longrightarrow> str_includes (cmd proc) ''playwright''"
    using temp_profile_mentions by (simp add: mentions_playwright_def)
  from 1 2 3 4 5 show ?thesis by (intro conjI)
qed

lemmas gc_eval =
  runGC_def DEFAULT_CONFIG_def procs_example_def proc_no_profile_def isOrphanedChrome_def
  exact_def Let_def startsWith_def

theorem runGC_targets_witness:
  "monotone_rounding exact
   \<and> signalled (runGC exact DEFAULT_CONFIG 7 procs_example) = [100]
   \<and> killed (runGC exact DEFAULT_CONFIG 7 procs_example) = 1
   \<and> checked (runGC exact DEFAULT_CONFIG 7 procs_example) = 4
   \<and> 7 \<notin> set (signalled (runGC exact DEFAULT_CONFIG 7 procs_example))
   \<and> old_playwright_process DEFAULT_CONFIG 7 (procs_example ! 0)
   \<and> pid (procs_example ! 0) = 100"
proof -
  have m: "monotone_rounding exact"
    by (simp add: monotone_rounding_def mono_def exact_def)
  have s: "signalled (runGC exact DEFAULT_CONFIG 7 procs_example) = [100]"
    by (simp add: gc_eval)
  have p: "old_playwright_process DEFAULT_CONFIG 7 (procs_example ! 0)
           \<and> pid (procs_example ! 0) = 100"
    by (simp add: old_playwright_process_def mentions_playwright_def gc_eval)
  from runGC_targets [OF m, of DEFAULT_CONFIG 7 procs_example]
  have "7 \<notin> set (signalled (runGC exact DEFAULT_CONFIG 7 procs_example))
        \<and> killed (runGC exact DEFAULT_CONFIG 7 procs_example)
            = length (signalled (runGC exact DEFAULT_CONFIG 7 procs_example))
        \<and> checked (runGC exact DEFAULT_CONFIG 7 procs_example) = length procs_example"
    by blast
  then show ?thesis using m s p by (simp add: procs_example_def)
qed

text \<open>Claim C5 as stated fails: under the default configuration, a process of 40
  minutes whose command line names the automation engine's install directory, and not
  its temporary profile directory, is given to \<open>killProcess\<close>.\<close>

theorem runGC_without_temp_profile_counterexample:
  "signalled (runGC exact DEFAULT_CONFIG 1 [proc_no_profile]) = [4242]
   \<and> \<not> references_temp_profile (cmd proc_no_profile)"
  by (simp add: gc_eval references_temp_profile_def)

section \<open>Content extraction\<close>

text \<open>On the lightweight path a text longer than the requested length, when that is not
  0, is cut to exactly that length before it is returned.\<close>

lemma extractWithAxios_truncates:
  assumes "extractWithAxios ex options (Inr parsed) = Inr content"
    and "opt_maxContentLength options = Some m" and "m \<noteq> 0" and "length parsed > m"
  shows "content = take m parsed \<and> length content = m"
  using assms by (auto simp: extractWithAxios_def Let_def split: if_splits)

text \<open>An error of the HTTP client whose response body is a parsed JSON object makes
  \<open>shouldUseBrowser\<close> throw, whatever its status, and \<open>extractContent\<close> with it.\<close>

lemma shouldUseBrowser_object_body:
  "shouldUseBrowser (AxiosError code st msg (Some OtherData)) u
     = Inl (PlainError ''error.response?.data?.includes is not a function'')"
  by (simp add: shouldUseBrowser_def)

lemma extractContent_object_body:
  "extractContent ex options (Inl (AxiosError code st msg (Some OtherData))) rendered
     = Inl (PlainError ''error.response?.data?.includes is not a function'')"
  by (simp add: extractContent_def extractWithAxios_def shouldUseBrowser_def)

text \<open>
  Claim C7 says that a text longer than the requested \<open>maxLength\<close> is cut to exactly
  \<open>maxLength\<close> characters on both paths. The lightweight path does it; the rendered path
  does not read the option at all: for a request with \<open>maxContentLength = 1000\<close> that the
  HTTP client answers with status 403, so that the browser is used, and a rendered
  page of 10000 characters, \<open>extractContent\<close> returns all 10000 characters.
\<close>

theorem extractContent_browser_path_not_truncated:
  "opt_maxContentLength opts_1000 = Some 1000
   \<and> shouldUseBrowser forbidden_403 (opt_url opts_1000) = Inr True
   \<and> extractContent default_extractor opts_1000 (Inl forbidden_403)
         (Inr (replicate 10000 CHR ''a''))
       = Inr (replicate 10000 CHR ''a'')
   \<and> length (replicate 10000 CHR ''a'') = 10000"
  by (simp add: extractContent_def extractWithAxios_def extractWithBrowser_def
      shouldUseBrowser_def forbidden_403_def opts_1000_def)

subsection \<open>Bulk extraction\<close>

lemma take_take_append:
  "take n (take n S @ take (max 0 (n - length S)) F) = take n (S @ F)"
  by (cases "n \<le> length S") auto

lemma extract_one_status:
  "fetchStatus (extract_one ex ut net r)
     = (case race ex net (url r) of Inr c \<Rightarrow> success | Inl e \<Rightarrow> error)"
  by (simp add: extract_one_def Let_def split: sum.splits)

lemma extract_one_failed:
  "race ex net (url r) = Inl err \<Longrightarrow>
     fetchStatus (extract_one ex ut net r) = error \<and> fullContent (extract_one ex ut net r) = []
     \<and> error_msg (extract_one ex ut net r) = Some (getSpecificErrorMessage err)"
  by (simp add: extract_one_def)

lemma bulk_eq:
  "extractContentForResults ex ut net results n =
     take n (filter (\<lambda>r. fetchStatus r = success)
               (map (extract_one ex ut net) (resultsToProcess ut results n))
           @ filter (\<lambda>r. fetchStatus r = error)
               (map (extract_one ex ut net) (resultsToProcess ut results n)))"
  unfolding extractContentForResults_def Let_def by (rule take_take_append)

lemma take_split_sorted:
  assumes "\<forall>r \<in> set S. P r" "\<forall>r \<in> set F. Q r"
  shows "\<exists>ss fs. take n (S @ F) = ss @ fs \<and> (\<forall>r \<in> set ss. P r) \<and> (\<forall>r \<in> set fs. Q r)"
proof -
  have "take n (S @ F) = take n S @ take (n - length S) F" by simp
  moreover have "\<forall>r \<in> set (take n S). P r" using assms(1) by (meson in_set_takeD)
  moreover have "\<forall>r \<in> set (take (n - length S) F). Q r" using assms(2) by (meson in_set_takeD)
  ultimately show ?thesis by blast
qed

lemma length_partition:
  "length (filter (\<lambda>r. fetchStatus r = success) xs)
     + length (filter (\<lambda>r. fetchStatus r = error) xs) = length xs"
proof (induction xs)
  case Nil
  then show ?case by simp
next
  case (Cons x xs)
  then show ?case by (cases "fetchStatus x") auto
qed

text \<open>
  Claim C8, as the code has it. \<open>extractContentForResults\<close> leaves out the results whose
  URL is a PDF and processes at most \<open>min (2 * targetCount) 10\<close> of the others. It returns
  \<open>targetCount\<close> results, or all the processed ones when they are fewer: no failure
  removes an item from the batch or stops it. Each returned item is the outcome of one
  processed result; the successful ones come first. An item whose extraction fails has
  \<open>fetchStatus = error\<close>, no content, and as its message the string that
  \<open>getSpecificErrorMessage\<close> makes of the error: for an error of the HTTP client
  \<open>Request timeout\<close>, \<open>403 Forbidden - Access denied\<close>, \<open>404 Not found\<close>, \<open>Content too long\<close>,
  \<open>HTTP\<close> with the status and the message, or \<open>Network error:\<close> with the message; for any
  other error the error's own message; for a thrown value that is no error
  \<open>Unknown error\<close>.
\<close>

theorem extractContentForResults_batch:
  "length (resultsToProcess ut results n) \<le> min (2 * n) 10
   \<and> (\<forall>r \<in> set (resultsToProcess ut results n). r \<in> set results \<and> \<not> isPdfUrl ut (url r))
   \<and> length (extractContentForResults ex ut net results n)
       = min n (length (resultsToProcess ut results n))
   \<and> (\<forall>r \<in> set (extractContentForResults ex ut net results n).
         \<exists>r0 \<in> set (resultsToProcess ut results n). r = extract_one ex ut net r0)
   \<and> (\<exists>ss fs. extractContentForResults ex ut net results n = ss @ fs
         \<and> (\<forall>r \<in> set ss. fetchStatus r = success) \<and> (\<forall>r \<in> set fs. fetchStatus r = error))
   \<and> (\<forall>r0 err. race ex net (url r0) = Inl err \<longrightarrow>
         fetchStatus (extract_one ex ut net r0) = error
         \<and> fullContent (extract_one ex ut net r0) = []
         \<and> error_msg (extract_one ex ut net r0) = Some (getSpecificErrorMessage err))
   \<and> (\<forall>r0 c. race ex net (url r0) = Inr c \<longrightarrow> fetchStatus (extract_one ex ut net r0) = success)
   \<and> (\<forall>code st msg d. getSpecificErrorMessage (AxiosError code st msg d) =
         (if code = Some ''ECONNABORTED'' then ''Request timeout''
          else if st = Some 403 then ''403 Forbidden - Access denied''
          else if st = Some 404 then ''404 Not found''
          else if str_includes msg ''maxContentLength'' then ''Content too long''
          else if st \<noteq> None \<and> st \<noteq> Some 0 then ''HTTP '' @ show_nat (the st) @ '': '' @ msg
          else ''Network error: '' @ msg))
   \<and> (\<forall>msg. getSpecificErrorMessage (PlainError msg) = msg)
   \<and> getSpecificErrorMessage NonError = ''Unknown error''
   \<and> getSpecificErrorMessage Nullish = ''Unknown error''"
proof -
  let ?P = "resultsToProcess ut results n"
  let ?A = "map (extract_one ex ut net) ?P"
  let ?S = "filter (\<lambda>r. fetchStatus r = success) ?A"
  let ?F = "filter (\<lambda>r. fetchStatus r = error) ?A"
  have 1: "length ?P \<le> min (2 * n) 10"
    by (auto simp: resultsToProcess_def Let_def)
  have 2: "\<forall>r \<in> set ?P. r \<in> set results \<and> \<not> isPdfUrl ut (url r)"
    by (auto simp: resultsToProcess_def Let_def dest: in_set_takeD)
  have eq: "extractContentForResults ex ut net results n = take n (?S @ ?F)"
    by (rule bulk_eq)
  have 3: "length (extractContentForResults ex ut net results n) = min n (length ?P)"
    using length_partition [of ?A] by (simp add: eq)
  have 4: "\<forall>r \<in> set (extractContentForResults ex ut net results n).
             \<exists>r0 \<in> set ?P. r = extract_one ex ut net r0"
  proof
    fix r
    assume "r \<in> set (extractContentForResults ex ut net results n)"
    then have "r \<in> set (?S @ ?F)" unfolding eq by (rule in_set_takeD)
    then have "r \<in> set ?A" by auto
    then show "\<exists>r0 \<in> set ?P. r = extract_one ex ut net r0" by auto
  qed
  have 5: "\<exists>ss fs. extractContentForResults ex ut net results n = ss @ fs
         \<and> (\<forall>r \<in> set ss. fetchStatus r = success) \<and> (\<forall>r \<in> set fs. fetchStatus r = error)"
    unfolding eq by (rule take_split_sorted) auto
  have 6: "\<forall>r0 err. race ex net (url r0) = Inl err \<longrightarrow>
         fetchStatus (extract_one ex ut net r0) = error
         \<and> fullContent (extract_one ex ut net r0) = []
         \<and> error_msg (extract_one ex ut net r0) = Some (getSpecificErrorMessage err)"
    using extract_one_failed by blast
  have 7: "\<forall>r0 c. race ex net (url r0) = Inr c
             \<longrightarrow> fetchStatus (extract_one ex ut net r0) = success"
    by (simp add: extract_one_status)
  have 8: "\<forall>code st msg d. getSpecificErrorMessage (AxiosError code st msg d) =
         (if code = Some ''ECONNABORTED'' then ''Request timeout''
          else if st = Some 403 then ''403 Forbidden - Access denied''
          else if st = Some 404 then ''404 Not found''
          else if str_includes msg ''maxContentLength'' then ''Content too long''
          else if st \<noteq> None \<and> st \<noteq> Some 0 then ''HTTP '' @ show_nat (the st) @ '': '' @ msg
          else ''Network error: '' @ msg)"
    by (auto simp: getSpecificErrorMessage_def split: option.splits)
  have 9: "\<forall>msg. getSpecificErrorMessage (PlainError msg) = msg"
    "getSpecificErrorMessage NonError = ''Unknown error''"
    "getSpecificErrorMessage Nullish = ''Unknown error''"
    by (simp_all add: getSpecificErrorMessage_def)
  show ?thesis using 1 2 3 4 5 6 7 8 9 by (intro conjI)
qed

lemmas bulk_eval =
  extractContentForResults_def resultsToProcess_def sample_utils_def blocked_web_def
  one_result_def mk_result_def extract_one_def race_def extractContent_def
  extractWithAxios_def extractWithBrowser_def shouldUseBrowser_def forbidden_403_def
  getSpecificErrorMessage_def startsWith_def

theorem extractContentForResults_batch_witness:
  "resultsToProcess sample_utils one_result 1 = one_result
   \<and> race default_extractor blocked_web ''https://example.org/a''
       = Inl (PlainError ''Both axios and browser extraction failed for https://example.org/a'')
   \<and> length (extractContentForResults default_extractor sample_utils blocked_web one_result 1) = 1
   \<and> map fetchStatus
        (extractContentForResults default_extractor sample_utils blocked_web one_result 1)
       = [error]"
proof -
  have a: "resultsToProcess sample_utils one_result 1 = one_result"
    by (simp add: bulk_eval)
  have b: "race default_extractor blocked_web ''https://example.org/a''
       = Inl (PlainError ''Both axios and browser extraction failed for https://example.org/a'')"
    by (simp add: bulk_eval)
  have c: "map fetchStatus
        (extractContentForResults default_extractor sample_utils blocked_web one_result 1)
       = [error]"
    by (simp add: bulk_eval)
  from extractContentForResults_batch
    [of sample_utils one_result 1 default_extractor blocked_web]
  have "length (extractContentForResults default_extractor sample_utils blocked_web one_result 1)
       = min 1 (length (resultsToProcess sample_utils one_result 1))"
    by blast
  then show ?thesis using a b c by (simp add: one_result_def)
qed

text \<open>Claim C8 as stated fails on the message: when the request is answered with status
  403 and the browser session fails too, the failed item carries the message of the
  error that \<open>extractContent\<close> throws, which is none of timeout, 403, 404, content too
  long and network error.\<close>

theorem extractContentForResults_message_counterexample:
  "map error_msg
      (extractContentForResults default_extractor sample_utils blocked_web one_result 1)
     = [Some ''Both axios and browser extraction failed for https://example.org/a'']
   \<and> \<not> spec_classified ''Both axios and browser extraction failed for https://example.org/a''"
  by (simp add: bulk_eval spec_classified_def)

end
